theory Spec2Isabelle
  imports Complex_Main
begin

section \<open>Values, text and the library primitives\<close>

text \<open>
  Python strings are sequences of Unicode code points; a code point is a natural number.
  \<open>of_ascii\<close> writes a string of the Basic Latin block.
\<close>

type_synonym ustring = "nat list"

definition of_ascii :: "string \<Rightarrow> ustring" where
  "of_ascii s = map of_char s"

text \<open>
  A cell value as the workbook reader hands it over: absent, a boolean, an integer, a
  float or text. The model knows nothing about floats: they are the values of a type
  \<open>'f\<close>, and every operation on them is a primitive of the library.
\<close>

datatype 'f cell_value = VNone | VBool bool | VInt int | VFloat 'f | VStr ustring

text \<open>
  The exceptions the core can raise: \<open>ValueError r c\<close> is what the worksheet raises
  when asked for the cell at row \<open>r\<close>, column \<open>c\<close> with a coordinate below 1;
  \<open>OverflowError\<close> is \<open>float(v)\<close> on an integer outside the range of a double;
  \<open>KeyError\<close> is a sheet name the workbook does not hold.
\<close>

datatype error = ValueError int int | OverflowError | KeyError

text \<open>
  The primitives of the language and its library are parameters of the model, and
  nothing is assumed about them:
  \<^item> \<open>nfkc\<close> is \<open>unicodedata.normalize("NFKC", s)\<close> and \<open>lower\<close> is \<open>str.lower\<close>;
  \<^item> \<open>unicode_digit c\<close> is the value of the code point \<open>c\<close> when it is a decimal digit
    outside the Basic Latin block (such as the Arabic-Indic digits), which \<open>\d\<close>,
    \<open>int\<close> and \<open>float\<close> accept like \<open>0\<close> to \<open>9\<close>;
  \<^item> \<open>float_of_int i\<close> is \<open>float(i)\<close> for an integer in the range of a double, with its
    rounding; \<open>float_of_str s\<close> is \<open>float(s)\<close> for a string of digits with an optional
    sign and fraction, with its rounding and its infinities;
  \<^item> \<open>float_add\<close> is \<open>+\<close> on floats, \<open>float_nonneg x\<close> is \<open>x >= 0\<close>, \<open>float_is_zero x\<close>
    is \<open>x == 0\<close> (a float is false in a condition exactly then), and \<open>float_str\<close> is
    \<open>str\<close> on a float.
\<close>

record 'f pylib =
  nfkc :: "ustring \<Rightarrow> ustring"
  lower :: "ustring \<Rightarrow> ustring"
  unicode_digit :: "nat \<Rightarrow> nat option"
  float_of_int :: "int \<Rightarrow> 'f"
  float_of_str :: "ustring \<Rightarrow> 'f"
  float_add :: "'f \<Rightarrow> 'f \<Rightarrow> 'f"
  float_nonneg :: "'f \<Rightarrow> bool"
  float_is_zero :: "'f \<Rightarrow> bool"
  float_str :: "'f \<Rightarrow> ustring"

text \<open>The code points for which \<open>str.isspace\<close> holds; \<open>\s\<close> and \<open>strip\<close> use them.\<close>

definition is_space :: "nat \<Rightarrow> bool" where
  "is_space c \<longleftrightarrow>
     (9 \<le> c \<and> c \<le> 13) \<or> (28 \<le> c \<and> c \<le> 32) \<or> c = 133 \<or> c = 160 \<or> c = 5760 \<or>
     (8192 \<le> c \<and> c \<le> 8202) \<or> c = 8232 \<or> c = 8233 \<or> c = 8239 \<or> c = 8287 \<or> c = 12288"

text \<open>
  \<open>\d\<close>: the digits \<open>0\<close> to \<open>9\<close> and the decimal digits of the other scripts.
  \<open>digit_val\<close> is the value \<open>int\<close> gives a digit.
\<close>

definition is_digit :: "'f pylib \<Rightarrow> nat \<Rightarrow> bool" where
  "is_digit L c \<longleftrightarrow> (48 \<le> c \<and> c \<le> 57) \<or> (127 < c \<and> unicode_digit L c \<noteq> None)"

definition digit_val :: "'f pylib \<Rightarrow> nat \<Rightarrow> nat" where
  "digit_val L c =
     (if 48 \<le> c \<and> c \<le> 57 then c - 48
      else case unicode_digit L c of None \<Rightarrow> 0 | Some v \<Rightarrow> v)"

definition strip :: "ustring \<Rightarrow> ustring" where
  "strip s = rev (dropWhile is_space (rev (dropWhile is_space s)))"

text \<open>\<open>re.sub(r"\s+", " ", s)\<close>: every maximal run of whitespace becomes one space.\<close>

function collapse_ws :: "ustring \<Rightarrow> ustring" where
  "collapse_ws [] = []"
| "collapse_ws (c # cs) =
     (if is_space c then 32 # collapse_ws (dropWhile is_space cs) else c # collapse_ws cs)"
  by pat_completeness auto
termination
  by (relation "measure length") (auto simp: length_dropWhile_le less_Suc_eq_le)

text \<open>The three \<open>replace\<close> calls: non-breaking hyphen, en dash and em dash become \<open>-\<close>.\<close>

definition replace_dashes :: "ustring \<Rightarrow> ustring" where
  "replace_dashes s = map (\<lambda>c. if c = 8209 \<or> c = 8211 \<or> c = 8212 then 45 else c) s"

fun str_nat :: "nat \<Rightarrow> ustring" where
  "str_nat n = (if n < 10 then [48 + n] else str_nat (n div 10) @ [48 + n mod 10])"

declare str_nat.simps [simp del]

definition str_int :: "int \<Rightarrow> ustring" where
  "str_int i = (if i < 0 then 45 # str_nat (nat (- i)) else str_nat (nat i))"

text \<open>\<open>str(v)\<close>.\<close>

fun py_str :: "'f pylib \<Rightarrow> 'f cell_value \<Rightarrow> ustring" where
  "py_str L VNone = of_ascii ''None''"
| "py_str L (VBool b) = (if b then of_ascii ''True'' else of_ascii ''False'')"
| "py_str L (VInt i) = str_int i"
| "py_str L (VFloat x) = float_str L x"
| "py_str L (VStr s) = s"

text \<open>The truth value of \<open>v\<close> in a condition (\<open>if v\<close>).\<close>

fun truthy :: "'f pylib \<Rightarrow> 'f cell_value \<Rightarrow> bool" where
  "truthy L VNone = False"
| "truthy L (VBool b) = b"
| "truthy L (VInt i) = (i \<noteq> 0)"
| "truthy L (VFloat x) = (\<not> float_is_zero L x)"
| "truthy L (VStr s) = (s \<noteq> [])"

definition norm_text :: "'f pylib \<Rightarrow> 'f cell_value \<Rightarrow> ustring" where
  "norm_text L v =
     (case v of
        VNone \<Rightarrow> []
      | _ \<Rightarrow> lower L (strip (collapse_ws (replace_dashes (nfkc L (py_str L v))))))"

text \<open>\<open>ANCHOR_TEXT\<close>, \<open>SUB_PKA\<close> and \<open>SUB_VAT\<close>, as code points of the Cyrillic literals.\<close>

definition ANCHOR_TEXT :: ustring where
  "ANCHOR_TEXT = [1074, 1080, 1076, 32, 1093, 1083, 1077, 1073, 1072]"

definition SUB_PKA :: ustring where
  "SUB_PKA = [1087, 45, 1082, 1072]"

definition SUB_VAT :: ustring where
  "SUB_VAT = [1074, 45, 1072, 1090]"

text \<open>The placeholder store name of \<open>detect_store_columns\<close>.\<close>

definition UNNAMED :: ustring where
  "UNNAMED = [40, 1073, 1077, 1079, 32, 1085, 1072, 1079, 1074, 1072, 1085, 1080, 1103, 41]"

section \<open>to_number\<close>

text \<open>
  \<open>re.search(r"-?\d+(?:\.\d+)?", s)\<close>. \<open>number_body\<close> is the greedy match of
  \<open>\d+(?:\.\d+)?\<close> at the head of a string that starts with a digit;
  \<open>match_number\<close> is the match of the whole pattern at the head of the string;
  \<open>search_number\<close> tries every start position from the left.
\<close>

definition number_body :: "'f pylib \<Rightarrow> ustring \<Rightarrow> ustring" where
  "number_body L s =
     (let ds = takeWhile (is_digit L) s; r = dropWhile (is_digit L) s in
      case r of
        [] \<Rightarrow> ds
      | d # r' \<Rightarrow>
          if d = 46 \<and> takeWhile (is_digit L) r' \<noteq> []
          then ds @ 46 # takeWhile (is_digit L) r' else ds)"

definition starts_with_digit :: "'f pylib \<Rightarrow> ustring \<Rightarrow> bool" where
  "starts_with_digit L s = (case s of [] \<Rightarrow> False | c # _ \<Rightarrow> is_digit L c)"

definition match_number :: "'f pylib \<Rightarrow> ustring \<Rightarrow> ustring option" where
  "match_number L s =
     (case s of
        [] \<Rightarrow> None
      | c # cs \<Rightarrow>
          if c = 45 \<and> starts_with_digit L cs then Some (45 # number_body L cs)
          else if is_digit L c then Some (number_body L s)
          else None)"

fun search_number :: "'f pylib \<Rightarrow> ustring \<Rightarrow> ustring option" where
  "search_number L [] = None"
| "search_number L (c # cs) =
     (case match_number L (c # cs) of Some m \<Rightarrow> Some m | None \<Rightarrow> search_number L cs)"

text \<open>
  \<open>float(v)\<close> on an integer raises OverflowError when the integer rounds to a value
  beyond the largest double, that is from \<open>2^1024 - 2^970\<close> on.
\<close>

definition FLOAT_INT_LIMIT :: int where
  "FLOAT_INT_LIMIT = 2 ^ 1024 - 2 ^ 970"

definition replace_comma :: "ustring \<Rightarrow> ustring" where
  "replace_comma s = map (\<lambda>c. if c = 44 then 46 else c) s"

text \<open>
  \<open>to_number\<close>. The literal \<open>0.0\<close> is \<open>float(0)\<close>; a boolean is an integer (1 or 0) for
  \<open>isinstance\<close> and for \<open>float\<close>; \<open>float\<close> on the matched text does not raise.
\<close>

fun to_number :: "'f pylib \<Rightarrow> 'f cell_value \<Rightarrow> error + 'f" where
  "to_number L VNone = Inr (float_of_int L 0)"
| "to_number L (VBool b) = Inr (float_of_int L (if b then 1 else 0))"
| "to_number L (VInt i) =
     (if FLOAT_INT_LIMIT \<le> \<bar>i\<bar> then Inl OverflowError else Inr (float_of_int L i))"
| "to_number L (VFloat x) = Inr x"
| "to_number L (VStr s) =
     (case search_number L (replace_comma (strip s)) of
        Some m \<Rightarrow> Inr (float_of_str L m)
      | None \<Rightarrow> Inr (float_of_int L 0))"

section \<open>Sheet names and dates\<close>

record date =
  year :: int
  month :: int
  day :: int

text \<open>\<open>a <= b\<close> on dates (the time of day is midnight throughout).\<close>

definition date_le :: "date \<Rightarrow> date \<Rightarrow> bool" where
  "date_le a b \<longleftrightarrow>
     year a < year b \<or>
     (year a = year b \<and> (month a < month b \<or> (month a = month b \<and> day a \<le> day b)))"

text \<open>
  \<open>re.fullmatch\<close> for a pattern that is a sequence of single-character items:
  \<open>\d{2}\.\d{2}\.\d{4}\<close> written out.
\<close>

datatype pat = PDigit | PChar nat

fun pat_matches :: "'f pylib \<Rightarrow> pat \<Rightarrow> nat \<Rightarrow> bool" where
  "pat_matches L PDigit c = is_digit L c"
| "pat_matches L (PChar k) c = (c = k)"

fun fullmatch :: "'f pylib \<Rightarrow> pat list \<Rightarrow> ustring \<Rightarrow> bool" where
  "fullmatch L [] [] = True"
| "fullmatch L (p # ps) (c # cs) = (pat_matches L p c \<and> fullmatch L ps cs)"
| "fullmatch L _ _ = False"

definition DATE_PATTERN :: "pat list" where
  "DATE_PATTERN =
     [PDigit, PDigit, PChar 46, PDigit, PDigit, PChar 46, PDigit, PDigit, PDigit, PDigit]"

definition is_leap :: "int \<Rightarrow> bool" where
  "is_leap y \<longleftrightarrow> y mod 4 = 0 \<and> (y mod 100 \<noteq> 0 \<or> y mod 400 = 0)"

definition days_in_month :: "int \<Rightarrow> int \<Rightarrow> int" where
  "days_in_month y m =
     (if m = 2 then (if is_leap y then 29 else 28)
      else if m = 4 \<or> m = 6 \<or> m = 9 \<or> m = 11 then 30 else 31)"

text \<open>\<open>int(s)\<close> on a string of digits.\<close>

definition digits_value :: "'f pylib \<Rightarrow> ustring \<Rightarrow> nat" where
  "digits_value L ds = foldl (\<lambda>a c. 10 * a + digit_val L c) 0 ds"

text \<open>
  The two-character forms the format directives accept: \<open>%d\<close> is
  \<open>3[0-1]|[1-2]\d|0[1-9]\<close> and \<open>%m\<close> is \<open>1[0-2]|0[1-9]\<close> (their one-character forms
  cannot match a name of the shape); \<open>%Y\<close> is \<open>\d\d\d\d\<close>.
\<close>

definition day_field :: "'f pylib \<Rightarrow> nat \<Rightarrow> nat \<Rightarrow> bool" where
  "day_field L d1 d2 \<longleftrightarrow>
     (d1 = 51 \<and> (d2 = 48 \<or> d2 = 49)) \<or>
     ((d1 = 49 \<or> d1 = 50) \<and> is_digit L d2) \<or>
     (d1 = 48 \<and> 49 \<le> d2 \<and> d2 \<le> 57)"

definition month_field :: "nat \<Rightarrow> nat \<Rightarrow> bool" where
  "month_field m1 m2 \<longleftrightarrow>
     (m1 = 49 \<and> 48 \<le> m2 \<and> m2 \<le> 50) \<or> (m1 = 48 \<and> 49 \<le> m2 \<and> m2 \<le> 57)"

text \<open>
  \<open>datetime.strptime(name, "%d.%m.%Y")\<close> on a name with a two-character day and a
  two-character month, which is every name that has matched the shape; ValueError is
  \<open>None\<close>. The fields must have the forms above, and the date must exist: a year from
  1 to 9999, a month from 1 to 12, a day the month has.
\<close>

definition strptime_dmy :: "'f pylib \<Rightarrow> ustring \<Rightarrow> date option" where
  "strptime_dmy L s =
     (case s of
        d1 # d2 # p1 # m1 # m2 # p2 # ys \<Rightarrow>
          if p1 = 46 \<and> p2 = 46 \<and> day_field L d1 d2 \<and> month_field m1 m2 \<and>
             length ys = 4 \<and> list_all (is_digit L) ys
          then
            (let d = int (digits_value L [d1, d2]);
                 m = int (digits_value L [m1, m2]);
                 y = int (digits_value L ys)
             in if 1 \<le> y \<and> y \<le> 9999 \<and> 1 \<le> m \<and> m \<le> 12 \<and> 1 \<le> d \<and> d \<le> days_in_month y m
                then Some \<lparr>year = y, month = m, day = d\<rparr>
                else None)
          else None
      | _ \<Rightarrow> None)"

definition is_date_sheet :: "'f pylib \<Rightarrow> ustring \<Rightarrow> date option" where
  "is_date_sheet L nm = (if fullmatch L DATE_PATTERN nm then strptime_dmy L nm else None)"

section \<open>Worksheets and merged regions\<close>

record merged_range =
  min_row :: int
  min_col :: int
  max_row :: int
  max_col :: int

text \<open>
  A worksheet: the stored cell values (an absent cell is \<open>VNone\<close>), the merged ranges in
  the order \<open>ws.merged_cells.ranges\<close> yields them, and the sheet's own extent.
\<close>

record 'f worksheet =
  cell_values :: "int \<times> int \<Rightarrow> 'f cell_value"
  merged_ranges :: "merged_range list"
  ws_max_row :: int
  ws_max_column :: int

definition in_range :: "merged_range \<Rightarrow> int \<Rightarrow> int \<Rightarrow> bool" where
  "in_range mr row col \<longleftrightarrow>
     min_row mr \<le> row \<and> row \<le> max_row mr \<and> min_col mr \<le> col \<and> col \<le> max_col mr"

definition cell_top_left_of_merge :: "'f worksheet \<Rightarrow> int \<Rightarrow> int \<Rightarrow> int \<times> int" where
  "cell_top_left_of_merge ws row col =
     (case find (\<lambda>mr. in_range mr row col) (merged_ranges ws) of
        Some mr \<Rightarrow> (min_row mr, min_col mr)
      | None \<Rightarrow> (row, col))"

text \<open>\<open>ws.cell(r, c).value\<close>: the worksheet refuses a row or column below 1.\<close>

definition ws_cell :: "'f worksheet \<Rightarrow> int \<Rightarrow> int \<Rightarrow> error + 'f cell_value" where
  "ws_cell ws r c = (if r < 1 \<or> c < 1 then Inl (ValueError r c) else Inr (cell_values ws (r, c)))"

definition read_cell :: "'f worksheet \<Rightarrow> int \<Rightarrow> int \<Rightarrow> error + 'f cell_value" where
  "read_cell ws row col = (case cell_top_left_of_merge ws row col of (r0, c0) \<Rightarrow> ws_cell ws r0 c0)"

section \<open>Loops that may raise\<close>

text \<open>A \<open>for\<close> loop over a list whose body may raise: the first exception ends the loop.\<close>

fun foldE :: "('a \<Rightarrow> 's \<Rightarrow> error + 's) \<Rightarrow> 'a list \<Rightarrow> 's \<Rightarrow> error + 's" where
  "foldE f [] s = Inr s"
| "foldE f (x # xs) s = (case f x s of Inl e \<Rightarrow> Inl e | Inr s' \<Rightarrow> foldE f xs s')"

section \<open>Anchors, store columns and the data extent\<close>

definition find_table_anchors ::
  "'f pylib \<Rightarrow> 'f worksheet \<Rightarrow> int \<Rightarrow> int \<Rightarrow> error + (int \<times> int) list" where
  "find_table_anchors L ws last_row last_col =
     foldE (\<lambda>r. foldE (\<lambda>c anchors.
              case read_cell ws r c of
                Inl e \<Rightarrow> Inl e
              | Inr v \<Rightarrow> Inr (if norm_text L v = ANCHOR_TEXT then anchors @ [(r, c)] else anchors))
            [1..last_col])
       [1..last_row] []"

record StoreCols =
  name :: ustring
  pka_col :: int
  vat_col :: int

text \<open>\<open>pretty = str(name_raw).strip() if name_raw else ""\<close>, also used for the driver.\<close>

definition pretty_text :: "'f pylib \<Rightarrow> 'f cell_value \<Rightarrow> ustring" where
  "pretty_text L raw = (if truthy L raw then strip (py_str L raw) else [])"

function detect_loop ::
  "'f pylib \<Rightarrow> 'f worksheet \<Rightarrow> int \<Rightarrow> int \<Rightarrow> int \<Rightarrow> int \<Rightarrow> StoreCols list \<Rightarrow> error + StoreCols list"
where
  "detect_loop L ws hdr_row sub_row last_col c stores =
     (if c \<le> last_col - 1 then
        (case read_cell ws sub_row c of
           Inl e \<Rightarrow> Inl e
         | Inr pka \<Rightarrow>
            (case read_cell ws sub_row (c + 1) of
               Inl e \<Rightarrow> Inl e
             | Inr vat \<Rightarrow>
                if norm_text L pka = SUB_PKA \<and> norm_text L vat = SUB_VAT then
                  (case read_cell ws hdr_row c of
                     Inl e \<Rightarrow> Inl e
                   | Inr name_raw \<Rightarrow>
                      detect_loop L ws hdr_row sub_row last_col (c + 3)
                        (stores @
                         [\<lparr>name = (if pretty_text L name_raw \<noteq> [] then pretty_text L name_raw
                                   else UNNAMED),
                           pka_col = c, vat_col = c + 1\<rparr>]))
                else detect_loop L ws hdr_row sub_row last_col (c + 1) stores))
      else Inr stores)"
  by pat_completeness auto
termination
  by (relation "measure (\<lambda>(L, ws, hdr_row, sub_row, last_col, c, stores). nat (last_col - c))") auto

declare detect_loop.simps [simp del]

definition detect_store_columns ::
  "'f pylib \<Rightarrow> 'f worksheet \<Rightarrow> int \<Rightarrow> int \<Rightarrow> int \<Rightarrow> int \<Rightarrow> error + StoreCols list" where
  "detect_store_columns L ws hdr_row sub_row start_col last_col =
     detect_loop L ws hdr_row sub_row last_col start_col []"

text \<open>
  The \<open>while\<close> loop of \<open>data_row_end\<close>: its state is \<open>(r, blank)\<close>, and \<open>break\<close> leaves
  the loop with \<open>r\<close> not advanced.
\<close>

function data_row_loop ::
  "'f pylib \<Rightarrow> 'f worksheet \<Rightarrow> int \<Rightarrow> int \<Rightarrow> int \<Rightarrow> int \<Rightarrow> error + int \<times> int"
where
  "data_row_loop L ws bread_col last_row r blank =
     (if r \<le> last_row then
        (case read_cell ws r bread_col of
           Inl e \<Rightarrow> Inl e
         | Inr v \<Rightarrow>
            if norm_text L v = [] then
              (if blank + 1 \<ge> 2 then Inr (r, blank + 1)
               else data_row_loop L ws bread_col last_row (r + 1) (blank + 1))
            else data_row_loop L ws bread_col last_row (r + 1) 0)
      else Inr (r, blank))"
  by pat_completeness auto
termination
  by (relation "measure (\<lambda>(L, ws, bread_col, last_row, r, blank). nat (last_row + 1 - r))") auto

declare data_row_loop.simps [simp del]

definition data_row_end :: "'f pylib \<Rightarrow> 'f worksheet \<Rightarrow> int \<Rightarrow> int \<Rightarrow> int \<Rightarrow> error + int" where
  "data_row_end L ws bread_col start_row last_row =
     (case data_row_loop L ws bread_col last_row start_row 0 of
        Inl e \<Rightarrow> Inl e
      | Inr (r, blank) \<Rightarrow> Inr (r - blank - 1))"

section \<open>The aggregator\<close>

record 'f totals =
  brought :: 'f
  returned :: 'f

type_synonym 'f totals_map = "ustring \<Rightarrow> 'f totals option"

text \<open>
  \<open>m[k]["brought"] += b; m[k]["returned"] += rv\<close> on a \<open>defaultdict\<close> whose default
  entry is \<open>0.0\<close> in both fields.
\<close>

definition add_totals :: "'f pylib \<Rightarrow> 'f totals_map \<Rightarrow> ustring \<Rightarrow> 'f \<Rightarrow> 'f \<Rightarrow> 'f totals_map" where
  "add_totals L m k b rv =
     (case m k of
        None \<Rightarrow> m(k \<mapsto> \<lparr>brought = float_add L (float_of_int L 0) b,
                        returned = float_add L (float_of_int L 0) rv\<rparr>)
      | Some t \<Rightarrow> m(k \<mapsto> \<lparr>brought = float_add L (brought t) b,
                          returned = float_add L (returned t) rv\<rparr>))"

text \<open>The body of the two inner loops: one data row, one store pair.\<close>

definition add_cell ::
  "'f pylib \<Rightarrow> 'f worksheet \<Rightarrow> bool \<Rightarrow> ustring \<Rightarrow> int \<Rightarrow> StoreCols \<Rightarrow> 'f totals_map \<times> 'f totals_map
     \<Rightarrow> error + 'f totals_map \<times> 'f totals_map" where
  "add_cell L ws has_driver driver_display r st acc =
     (case acc of (stores_totals, drivers_totals) \<Rightarrow>
      case read_cell ws r (pka_col st) of
        Inl e \<Rightarrow> Inl e
      | Inr bv \<Rightarrow>
         (case to_number L bv of
            Inl e \<Rightarrow> Inl e
          | Inr b \<Rightarrow>
             (case read_cell ws r (vat_col st) of
                Inl e \<Rightarrow> Inl e
              | Inr rvv \<Rightarrow>
                 (case to_number L rvv of
                    Inl e \<Rightarrow> Inl e
                  | Inr rv \<Rightarrow>
                     Inr (add_totals L stores_totals (name st) b rv,
                          if has_driver then add_totals L drivers_totals driver_display b rv
                          else drivers_totals)))))"

text \<open>The body of \<open>for (anchor_row, anchor_col) in anchors\<close>.\<close>

definition process_anchor ::
  "'f pylib \<Rightarrow> 'f worksheet \<Rightarrow> int \<Rightarrow> int \<Rightarrow> int \<times> int \<Rightarrow> 'f totals_map \<times> 'f totals_map
     \<Rightarrow> error + 'f totals_map \<times> 'f totals_map" where
  "process_anchor L ws last_row last_col anchor acc =
     (case anchor of (anchor_row, anchor_col) \<Rightarrow>
      case read_cell ws (anchor_row - 1) anchor_col of
        Inl e \<Rightarrow> Inl e
      | Inr driver_raw \<Rightarrow>
         (case detect_store_columns L ws (anchor_row - 1) anchor_row (anchor_col + 2) last_col of
            Inl e \<Rightarrow> Inl e
          | Inr stores \<Rightarrow>
             if stores = [] then Inr acc
             else
               (case data_row_end L ws anchor_col (anchor_row + 1) last_row of
                  Inl e \<Rightarrow> Inl e
                | Inr data_end \<Rightarrow>
                   if data_end < anchor_row + 1 then Inr acc
                   else
                     foldE (\<lambda>r. foldE (add_cell L ws (norm_text L driver_raw \<noteq> [])
                                          (pretty_text L driver_raw) r) stores)
                       [anchor_row + 1..data_end] acc)))"

section \<open>The scan\<close>

type_synonym 'f workbook = "(ustring \<times> 'f worksheet) list"

definition sheetnames :: "'f workbook \<Rightarrow> ustring list" where
  "sheetnames wb = map fst wb"

definition get_sheet :: "'f workbook \<Rightarrow> ustring \<Rightarrow> error + 'f worksheet" where
  "get_sheet wb nm = (case map_of wb nm of None \<Rightarrow> Inl KeyError | Some ws \<Rightarrow> Inr ws)"

text \<open>
  The state of the loop over the sheets: the two totals maps, the \<open>done\<close> counter, and
  what the callbacks have been told: one log line per sheet (its name, the number of
  anchors found and the window) and one progress call per finished sheet.
\<close>

record 'f scan_state =
  stores_totals :: "'f totals_map"
  drivers_totals :: "'f totals_map"
  sheets_done :: nat
  log_lines :: "(ustring \<times> nat \<times> int \<times> int) list"
  progress_calls :: "(nat \<times> nat) list"

record scan_meta =
  sheets_scanned :: nat
  meta_from :: date
  meta_to :: date
  meta_max_rows :: int
  meta_max_cols :: int

text \<open>\<open>x or y\<close> on integers.\<close>

definition int_or :: "int \<Rightarrow> int \<Rightarrow> int" where
  "int_or x y = (if x = 0 then y else x)"

text \<open>
  The list comprehension that selects the sheets: the name parses as a date and the
  date lies between the two bounds.
\<close>

definition select_sheets :: "'f pylib \<Rightarrow> 'f workbook \<Rightarrow> date \<Rightarrow> date \<Rightarrow> ustring list" where
  "select_sheets L wb date_from date_to =
     filter (\<lambda>n. case is_date_sheet L n of
                   None \<Rightarrow> False
                 | Some dt \<Rightarrow> date_le date_from dt \<and> date_le dt date_to)
       (sheetnames wb)"

text \<open>The body of \<open>for name in sheets\<close>.\<close>

definition scan_sheet ::
  "'f pylib \<Rightarrow> 'f workbook \<Rightarrow> int \<Rightarrow> int \<Rightarrow> nat \<Rightarrow> ustring \<Rightarrow> 'f scan_state \<Rightarrow> error + 'f scan_state" where
  "scan_sheet L wb max_rows max_cols total_count nm st =
     (case get_sheet wb nm of
        Inl e \<Rightarrow> Inl e
      | Inr ws \<Rightarrow>
         (let last_row = min (int_or (ws_max_row ws) max_rows) max_rows;
              last_col = min (int_or (ws_max_column ws) max_cols) max_cols
          in case find_table_anchors L ws last_row last_col of
               Inl e \<Rightarrow> Inl e
             | Inr anchors \<Rightarrow>
                (case foldE (process_anchor L ws last_row last_col) anchors
                        (stores_totals st, drivers_totals st) of
                   Inl e \<Rightarrow> Inl e
                 | Inr (s', d') \<Rightarrow>
                    Inr (st\<lparr>stores_totals := s', drivers_totals := d',
                            sheets_done := sheets_done st + 1,
                            log_lines := log_lines st @ [(nm, length anchors, last_col, last_row)],
                            progress_calls := progress_calls st @ [(sheets_done st + 1, total_count)]\<rparr>))))"

text \<open>
  \<open>scan_workbook\<close> on a workbook that has been opened. It returns the final state of
  the loop, which holds the two totals maps, and the metadata.
\<close>

definition scan_workbook ::
  "'f pylib \<Rightarrow> 'f workbook \<Rightarrow> date \<Rightarrow> date \<Rightarrow> int \<Rightarrow> int \<Rightarrow> error + 'f scan_state \<times> scan_meta" where
  "scan_workbook L wb date_from date_to max_rows max_cols =
     (let sheets = select_sheets L wb date_from date_to; total_count = length sheets in
      case foldE (scan_sheet L wb max_rows max_cols total_count) sheets
             \<lparr>stores_totals = Map.empty, drivers_totals = Map.empty, sheets_done = 0,
              log_lines = [], progress_calls = []\<rparr> of
        Inl e \<Rightarrow> Inl e
      | Inr st \<Rightarrow>
         Inr (st, \<lparr>sheets_scanned = total_count, meta_from = date_from, meta_to = date_to,
                   meta_max_rows = max_rows, meta_max_cols = max_cols\<rparr>))"

section \<open>Specification predicates and example inputs\<close>

subsection \<open>Merged ranges and reads\<close>

text \<open>Two merged ranges overlap when they share a cell.\<close>

definition overlaps :: "merged_range \<Rightarrow> merged_range \<Rightarrow> bool" where
  "overlaps a b \<longleftrightarrow>
     max (min_row a) (min_row b) \<le> min (max_row a) (max_row b) \<and>
     max (min_col a) (min_col b) \<le> min (max_col a) (max_col b)"

text \<open>The merged ranges of a sheet are pairwise disjoint, as a spreadsheet program writes them.\<close>

definition no_overlap :: "'f worksheet \<Rightarrow> bool" where
  "no_overlap ws \<longleftrightarrow>
     (\<forall>a \<in> set (merged_ranges ws). \<forall>b \<in> set (merged_ranges ws). a \<noteq> b \<longrightarrow> \<not> overlaps a b)"

text \<open>Every merged range starts at row and column 1 or later (the reader's cell ranges do).\<close>

definition valid_ranges :: "'f worksheet \<Rightarrow> bool" where
  "valid_ranges ws \<longleftrightarrow> (\<forall>mr \<in> set (merged_ranges ws). 1 \<le> min_row mr \<and> 1 \<le> min_col mr)"

text \<open>The value a successful \<open>read_cell\<close> returns.\<close>

definition resolved_value :: "'f worksheet \<Rightarrow> int \<Rightarrow> int \<Rightarrow> 'f cell_value" where
  "resolved_value ws r c = cell_values ws (cell_top_left_of_merge ws r c)"

text \<open>The cell at \<open>p\<close> reads, through the resolver, as the anchor phrase.\<close>

definition is_anchor :: "'f pylib \<Rightarrow> 'f worksheet \<Rightarrow> int \<times> int \<Rightarrow> bool" where
  "is_anchor L ws p = (case p of (r, c) \<Rightarrow> norm_text L (resolved_value ws r c) = ANCHOR_TEXT)"

text \<open>Row \<open>r\<close> is blank in column \<open>col\<close>: the normalized text of the cell is empty.\<close>

definition is_blank :: "'f pylib \<Rightarrow> 'f worksheet \<Rightarrow> int \<Rightarrow> int \<Rightarrow> bool" where
  "is_blank L ws col r \<longleftrightarrow> norm_text L (resolved_value ws r col) = []"

text \<open>
  The scan window of a sheet: the sheet's own extent, cut at the caller's bound; an
  extent of 0 counts as the bound.
\<close>

definition window_rows :: "'f worksheet \<Rightarrow> int \<Rightarrow> int" where
  "window_rows ws max_rows = min (if ws_max_row ws = 0 then max_rows else ws_max_row ws) max_rows"

definition window_cols :: "'f worksheet \<Rightarrow> int \<Rightarrow> int" where
  "window_cols ws max_cols =
     min (if ws_max_column ws = 0 then max_cols else ws_max_column ws) max_cols"

subsection \<open>An instance of the library\<close>

text \<open>
  An instance of the library primitives for the examples, with the real numbers in the
  place of the floats. It agrees with Python's on the inputs of the examples: text made
  of Basic Latin and Russian letters, digits and punctuation, where NFKC changes
  nothing and \<open>lower\<close> shifts the capital letters; the Arabic-Indic digits (U+0660 to
  U+0669) as the decimal digits of another script; integers and decimal numbers that a
  double holds exactly. (The examples hold no float that is turned into text.)
\<close>

definition basic_digit :: "nat \<Rightarrow> nat option" where
  "basic_digit c = (if 1632 \<le> c \<and> c \<le> 1641 then Some (c - 1632) else None)"

definition basic_digits_value :: "ustring \<Rightarrow> nat" where
  "basic_digits_value ds = foldl (\<lambda>a c. 10 * a + (if c < 128 then c - 48 else c - 1632)) 0 ds"

definition basic_unsigned :: "ustring \<Rightarrow> real" where
  "basic_unsigned t =
     (let ds = takeWhile (\<lambda>c. c \<noteq> 46) t; fs = drop (Suc (length ds)) t in
      real (basic_digits_value ds) + real (basic_digits_value fs) / 10 ^ length fs)"

definition basic_float :: "ustring \<Rightarrow> real" where
  "basic_float t =
     (case t of [] \<Rightarrow> 0 | c # cs \<Rightarrow> if c = 45 then - basic_unsigned cs else basic_unsigned t)"

definition basic_lib :: "real pylib" where
  "basic_lib = \<lparr>nfkc = (\<lambda>s. s),
     lower = map (\<lambda>c. if (65 \<le> c \<and> c \<le> 90) \<or> (1040 \<le> c \<and> c \<le> 1071) then c + 32 else c),
     unicode_digit = basic_digit,
     float_of_int = of_int,
     float_of_str = basic_float,
     float_add = (+),
     float_nonneg = (\<lambda>x. 0 \<le> x),
     float_is_zero = (\<lambda>x. x = 0),
     float_str = (\<lambda>x. [])\<rparr>"

subsection \<open>Example sheets for the resolver, the anchor finder and the data extent\<close>

text \<open>A sheet with the merged ranges A1:B2 and B2:C3, which share the cell B2.\<close>

definition overlap_sheet :: "real worksheet" where
  "overlap_sheet = \<lparr>cell_values = (\<lambda>_. VNone),
     merged_ranges = [\<lparr>min_row = 1, min_col = 1, max_row = 2, max_col = 2\<rparr>,
                      \<lparr>min_row = 2, min_col = 2, max_row = 3, max_col = 3\<rparr>],
     ws_max_row = 3, ws_max_column = 3\<rparr>"

text \<open>A sheet whose anchor phrase sits in the merged range A2:B3.\<close>

definition merged_title_sheet :: "real worksheet" where
  "merged_title_sheet = \<lparr>cell_values = (\<lambda>_. VNone)((2, 1) := VStr ANCHOR_TEXT),
     merged_ranges = [\<lparr>min_row = 2, min_col = 1, max_row = 3, max_col = 2\<rparr>],
     ws_max_row = 5, ws_max_column = 5\<rparr>"

text \<open>
  A sheet with the merged ranges B1:C1 and A1:B1, in this order; the anchor phrase is
  in A1, the top-left cell of the second range.
\<close>

definition overlap_anchor_sheet :: "real worksheet" where
  "overlap_anchor_sheet = \<lparr>cell_values = (\<lambda>_. VNone)((1, 1) := VStr ANCHOR_TEXT),
     merged_ranges = [\<lparr>min_row = 1, min_col = 2, max_row = 1, max_col = 3\<rparr>,
                      \<lparr>min_row = 1, min_col = 1, max_row = 1, max_col = 2\<rparr>],
     ws_max_row = 1, ws_max_column = 3\<rparr>"

text \<open>A sheet whose column A holds text in rows 1 to 3 and nothing below; it has 10 rows.\<close>

definition extent_sheet :: "real worksheet" where
  "extent_sheet = \<lparr>cell_values = (\<lambda>_. VNone)
       ((1, 1) := VStr (of_ascii ''rye''), (2, 1) := VStr (of_ascii ''wheat''),
        (3, 1) := VStr (of_ascii ''bun'')),
     merged_ranges = [], ws_max_row = 10, ws_max_column = 1\<rparr>"

text \<open>A one-cell sheet with the anchor phrase in A1, and a workbook that holds it.\<close>

definition row1_sheet :: "real worksheet" where
  "row1_sheet = \<lparr>cell_values = (\<lambda>_. VNone)((1, 1) := VStr ANCHOR_TEXT),
     merged_ranges = [], ws_max_row = 1, ws_max_column = 1\<rparr>"

definition row1_book :: "real workbook" where
  "row1_book = [(of_ascii ''05.01.2024'', row1_sheet)]"

definition jan_1 :: date where
  "jan_1 = \<lparr>year = 2024, month = 1, day = 1\<rparr>"

definition jan_31 :: date where
  "jan_31 = \<lparr>year = 2024, month = 1, day = 31\<rparr>"

text \<open>
  A sheet whose anchor phrase sits in the merged range A1:B2, which covers row 1, and
  a workbook that holds it.
\<close>

definition top_title_sheet :: "real worksheet" where
  "top_title_sheet = \<lparr>cell_values = (\<lambda>_. VNone)((1, 1) := VStr ANCHOR_TEXT),
     merged_ranges = [\<lparr>min_row = 1, min_col = 1, max_row = 2, max_col = 2\<rparr>],
     ws_max_row = 2, ws_max_column = 2\<rparr>"

definition top_title_book :: "real workbook" where
  "top_title_book = [(of_ascii ''05.01.2024'', top_title_sheet)]"

text \<open>
  A sheet with one table whose title is merged over A2:B2. The header row holds
  ``Store A'' above column C and ``Store B'' above column F; the subheader row holds
  the three labels in C to E and in F to H; row 3 is the one data row, with 5 and 2 for
  store A and 4 and 1 for store B. \<open>merged_table_book\<close> holds the sheet under the
  name 05.01.2024.
\<close>

definition merged_table_sheet :: "real worksheet" where
  "merged_table_sheet = \<lparr>cell_values = (\<lambda>_. VNone)
       ((1, 3) := VStr (of_ascii ''Store A''), (1, 6) := VStr (of_ascii ''Store B''),
        (2, 1) := VStr ANCHOR_TEXT,
        (2, 3) := VStr SUB_PKA, (2, 4) := VStr SUB_VAT, (2, 5) := VStr [1086, 1089, 1090],
        (2, 6) := VStr SUB_PKA, (2, 7) := VStr SUB_VAT, (2, 8) := VStr [1086, 1089, 1090],
        (3, 1) := VStr (of_ascii ''rye''), (3, 2) := VInt 10,
        (3, 3) := VInt 5, (3, 4) := VInt 2, (3, 6) := VInt 4, (3, 7) := VInt 1),
     merged_ranges = [\<lparr>min_row = 2, min_col = 1, max_row = 2, max_col = 2\<rparr>],
     ws_max_row = 3, ws_max_column = 8\<rparr>"

definition merged_table_book :: "real workbook" where
  "merged_table_book = [(of_ascii ''05.01.2024'', merged_table_sheet)]"

definition store_a :: ustring where
  "store_a = of_ascii ''Store A''"

definition store_b :: ustring where
  "store_b = of_ascii ''Store B''"

subsection \<open>Dates and sheet names\<close>

text \<open>
  The text of a date in the form \<open>DD.MM.YYYY\<close>: \<open>pad_digits k n\<close> is \<open>n\<close> written with
  \<open>k\<close> decimal digits \<open>0\<close> to \<open>9\<close>. A valid calendar date has a year from 1 to 9999, a
  month from 1 to 12 and a day that the month has in that year.
\<close>

fun pad_digits :: "nat \<Rightarrow> nat \<Rightarrow> ustring" where
  "pad_digits 0 n = []"
| "pad_digits (Suc k) n = pad_digits k (n div 10) @ [48 + n mod 10]"





text \<open>The name parses as a date that lies between the two bounds, both included.\<close>

definition in_date_range :: "'f pylib \<Rightarrow> date \<Rightarrow> date \<Rightarrow> ustring \<Rightarrow> bool" where
  "in_date_range L date_from date_to nm \<longleftrightarrow>
     (case is_date_sheet L nm of
        None \<Rightarrow> False
      | Some dt \<Rightarrow> date_le date_from dt \<and> date_le dt date_to)"



subsection \<open>Numbers in text\<close>

text \<open>
  A signed integer or decimal, in the spec's words: an optional minus sign, one or more
  digits, and optionally a period followed by one or more digits. \<open>first_number_of s t\<close>:
  \<open>t\<close> is such a substring of \<open>s\<close>, no such substring starts further left, and none
  that starts at the same place is longer.
\<close>

definition is_unsigned_token :: "'f pylib \<Rightarrow> ustring \<Rightarrow> bool" where
  "is_unsigned_token L u \<longleftrightarrow>
     (u \<noteq> [] \<and> list_all (is_digit L) u) \<or>
     (\<exists>ds fs. u = ds @ 46 # fs \<and> ds \<noteq> [] \<and> fs \<noteq> [] \<and>
        list_all (is_digit L) ds \<and> list_all (is_digit L) fs)"

definition is_number_token :: "'f pylib \<Rightarrow> ustring \<Rightarrow> bool" where
  "is_number_token L t \<longleftrightarrow> is_unsigned_token L t \<or> (\<exists>u. t = 45 # u \<and> is_unsigned_token L u)"

definition first_number_of :: "'f pylib \<Rightarrow> ustring \<Rightarrow> ustring \<Rightarrow> bool" where
  "first_number_of L s t \<longleftrightarrow>
     (\<exists>pre post. s = pre @ t @ post \<and> is_number_token L t \<and>
        (\<forall>pre' t' post'. s = pre' @ t' @ post' \<and> is_number_token L t' \<longrightarrow>
           length pre < length pre' \<or> (length pre' = length pre \<and> length t' \<le> length t)))"

definition has_number :: "'f pylib \<Rightarrow> ustring \<Rightarrow> bool" where
  "has_number L s \<longleftrightarrow> (\<exists>pre t post. s = pre @ t @ post \<and> is_number_token L t)"

subsection \<open>Tables and what they add\<close>

text \<open>
  A sheet with one table: the cell above the anchor in A2 is the first parameter (the
  driver), the store ``Store A'' has its brought and returned columns C and D, and
  there are two data rows; the brought cell of the first data row is the second
  parameter. \<open>sample_book\<close> holds the sheet under the name 05.01.2024;
  \<open>sample_totals k x\<close> is what the two rows add to an empty map under the key \<open>k\<close>
  when the brought cell converts to \<open>x\<close>.
\<close>

definition sample_sheet :: "real cell_value \<Rightarrow> real cell_value \<Rightarrow> real worksheet" where
  "sample_sheet d b = \<lparr>cell_values = (\<lambda>_. VNone)
       ((1, 1) := d, (1, 3) := VStr (of_ascii ''Store A''),
        (2, 1) := VStr ANCHOR_TEXT, (2, 3) := VStr SUB_PKA, (2, 4) := VStr SUB_VAT,
        (3, 1) := VStr (of_ascii ''rye''), (3, 3) := b, (3, 4) := VInt 2,
        (4, 1) := VStr (of_ascii ''bun''), (4, 3) := VInt 3, (4, 4) := VInt 1),
     merged_ranges = [], ws_max_row = 4, ws_max_column = 4\<rparr>"

definition ivanov :: "real cell_value" where
  "ivanov = VStr (of_ascii ''Ivanov'')"

definition sample_book :: "real cell_value \<Rightarrow> real cell_value \<Rightarrow> real workbook" where
  "sample_book d b = [(of_ascii ''05.01.2024'', sample_sheet d b)]"

definition sample_totals :: "ustring \<Rightarrow> real \<Rightarrow> real totals_map" where
  "sample_totals k x = add_totals basic_lib (add_totals basic_lib Map.empty k x 2) k 3 1"

text \<open>
  A workbook of three sheets that each hold the sample table: one named for the first
  day of the range, one with a name that is no date, one named for a day after the
  range.
\<close>

definition three_book :: "real workbook" where
  "three_book =
     [(of_ascii ''01.01.2024'', sample_sheet ivanov (VInt 5)),
      (of_ascii ''Summary'', sample_sheet ivanov (VInt 5)),
      (of_ascii ''01.02.2024'', sample_sheet ivanov (VInt 5))]"

text \<open>
  What the scan does with one sheet, in the spec's words: the anchor finder runs on the
  sheet's window, and every anchor it returns is aggregated into the two totals maps.
\<close>

definition visit ::
  "'f pylib \<Rightarrow> 'f workbook \<Rightarrow> int \<Rightarrow> int \<Rightarrow> ustring \<Rightarrow> 'f totals_map \<times> 'f totals_map
     \<Rightarrow> error + 'f totals_map \<times> 'f totals_map" where
  "visit L wb max_rows max_cols nm acc =
     (case get_sheet wb nm of
        Inl e \<Rightarrow> Inl e
      | Inr ws \<Rightarrow>
         (case find_table_anchors L ws (window_rows ws max_rows) (window_cols ws max_cols) of
            Inl e \<Rightarrow> Inl e
          | Inr anchors \<Rightarrow>
             foldE (process_anchor L ws (window_rows ws max_rows) (window_cols ws max_cols))
               anchors acc))"

text \<open>
  The line the log holds for a visited sheet: its name, the number of anchors the
  anchor finder returns on the sheet's window, and the window.
\<close>

definition log_line_ok ::
  "'f pylib \<Rightarrow> 'f workbook \<Rightarrow> int \<Rightarrow> int \<Rightarrow> ustring \<times> nat \<times> int \<times> int \<Rightarrow> bool" where
  "log_line_ok L wb max_rows max_cols line =
     (case line of (nm, n, last_col, last_row) \<Rightarrow>
      case get_sheet wb nm of
        Inl e \<Rightarrow> False
      | Inr ws \<Rightarrow>
         last_row = window_rows ws max_rows \<and> last_col = window_cols ws max_cols \<and>
         (case find_table_anchors L ws last_row last_col of
            Inl e \<Rightarrow> False
          | Inr anchors \<Rightarrow> n = length anchors))"

text \<open>
  The sign of the sums. \<open>nonneg_totals\<close>: every entry of a totals map has two sums that
  are at least 0. \<open>summed_cells\<close>: the cells from which the scan of the window takes a
  number: for every anchor, with the store pairs and the last data row the code finds
  for it, the brought and the returned cell of every data row and store pair.
  \<open>cell_nonneg\<close>: the number the cell converts to, if it converts, is at least 0.
  \<open>float_order_laws\<close>: two facts of floating-point arithmetic: \<open>0.0 >= 0\<close>, and the sum
  of two floats that are at least 0 is at least 0.
\<close>

definition nonneg_totals :: "'f pylib \<Rightarrow> 'f totals_map \<Rightarrow> bool" where
  "nonneg_totals L m \<longleftrightarrow>
     (\<forall>k t. m k = Some t \<longrightarrow> float_nonneg L (brought t) \<and> float_nonneg L (returned t))"

definition table_cells :: "'f pylib \<Rightarrow> 'f worksheet \<Rightarrow> int \<Rightarrow> int \<Rightarrow> int \<times> int \<Rightarrow> (int \<times> int) list" where
  "table_cells L ws last_row last_col anchor =
     (case anchor of (ar, ac) \<Rightarrow>
      case detect_store_columns L ws (ar - 1) ar (ac + 2) last_col of
        Inl e \<Rightarrow> []
      | Inr stores \<Rightarrow>
         (case data_row_end L ws ac (ar + 1) last_row of
            Inl e \<Rightarrow> []
          | Inr data_end \<Rightarrow>
             concat (map (\<lambda>r. concat (map (\<lambda>st. [(r, pka_col st), (r, vat_col st)]) stores))
                       [ar + 1..data_end])))"

definition summed_cells :: "'f pylib \<Rightarrow> 'f worksheet \<Rightarrow> int \<Rightarrow> int \<Rightarrow> (int \<times> int) list" where
  "summed_cells L ws last_row last_col =
     (case find_table_anchors L ws last_row last_col of
        Inl e \<Rightarrow> []
      | Inr anchors \<Rightarrow> concat (map (table_cells L ws last_row last_col) anchors))"

definition cell_nonneg :: "'f pylib \<Rightarrow> 'f worksheet \<Rightarrow> int \<times> int \<Rightarrow> bool" where
  "cell_nonneg L ws p =
     (case to_number L (resolved_value ws (fst p) (snd p)) of
        Inl e \<Rightarrow> True
      | Inr x \<Rightarrow> float_nonneg L x)"

definition summed_cells_nonneg :: "'f pylib \<Rightarrow> 'f workbook \<Rightarrow> int \<Rightarrow> int \<Rightarrow> ustring \<Rightarrow> bool" where
  "summed_cells_nonneg L wb max_rows max_cols nm =
     (case get_sheet wb nm of
        Inl e \<Rightarrow> True
      | Inr ws \<Rightarrow>
         list_all (cell_nonneg L ws)
           (summed_cells L ws (window_rows ws max_rows) (window_cols ws max_cols)))"

definition float_order_laws :: "'f pylib \<Rightarrow> bool" where
  "float_order_laws L \<longleftrightarrow>
     float_nonneg L (float_of_int L 0) \<and>
     (\<forall>x y. float_nonneg L x \<and> float_nonneg L y \<longrightarrow> float_nonneg L (float_add L x y))"

text \<open>
  What one table adds, in the spec's words: for every data row and every store pair,
  the store's name with the numbers of its brought cell and its returned cell.
  \<open>credit_all\<close> adds a list of such contributions to a totals map, one after the
  other; \<open>to_driver d\<close> keeps the numbers and puts the key \<open>d\<close> in the place of the
  store names.
\<close>

definition credit_all ::
  "'f pylib \<Rightarrow> 'f totals_map \<Rightarrow> (ustring \<times> 'f \<times> 'f) list \<Rightarrow> 'f totals_map" where
  "credit_all L m cs = foldl (\<lambda>m (k, b, rv). add_totals L m k b rv) m cs"



definition to_driver :: "ustring \<Rightarrow> (ustring \<times> 'f \<times> 'f) list \<Rightarrow> (ustring \<times> 'f \<times> 'f) list" where
  "to_driver d cs = map (\<lambda>(k, b, rv). (d, b, rv)) cs"

text \<open>
  The name a cell shows: the text of its value without the white space around it.
  A cell holds a zero when its value is the integer 0, a float equal to 0 or the
  boolean False.
\<close>

definition display_name :: "'f pylib \<Rightarrow> 'f cell_value \<Rightarrow> ustring" where
  "display_name L v = strip (py_str L v)"

fun holds_zero :: "'f pylib \<Rightarrow> 'f cell_value \<Rightarrow> bool" where
  "holds_zero L (VInt i) = (i = 0)"
| "holds_zero L (VFloat x) = float_is_zero L x"
| "holds_zero L (VBool b) = (\<not> b)"
| "holds_zero L VNone = False"
| "holds_zero L (VStr s) = False"

subsection \<open>The column detector\<close>

text \<open>
  The column detector in the spec's words. \<open>is_pair\<close>: the subheader row holds the
  brought label at column \<open>c\<close> and the returned label at the next column.
  \<open>claimed_store_name\<close>: the name a header cell gives a store: the name the cell
  shows, and the placeholder when the cell is absent or shows the empty name.
  \<open>store_name\<close> is the same, but for a cell that holds a zero, which gives the
  placeholder. \<open>store_at\<close>: the pair recorded at \<open>c\<close>, named by the header row.
  \<open>pairs_from\<close>: every recorded pair lies in the window from \<open>c\<close> on, sits on a
  match and is the pair of its column; recorded pairs are at least three columns apart,
  in increasing order; and a matching column that is not recorded is the third column
  of a recorded pair.
\<close>

definition is_pair :: "'f pylib \<Rightarrow> 'f worksheet \<Rightarrow> int \<Rightarrow> int \<Rightarrow> bool" where
  "is_pair L ws sub_row c \<longleftrightarrow>
     norm_text L (resolved_value ws sub_row c) = SUB_PKA \<and>
     norm_text L (resolved_value ws sub_row (c + 1)) = SUB_VAT"

definition claimed_store_name :: "'f pylib \<Rightarrow> 'f cell_value \<Rightarrow> ustring" where
  "claimed_store_name L v =
     (if v = VNone \<or> display_name L v = [] then UNNAMED else display_name L v)"

definition store_name :: "'f pylib \<Rightarrow> 'f cell_value \<Rightarrow> ustring" where
  "store_name L v = (if holds_zero L v then UNNAMED else claimed_store_name L v)"

definition store_at :: "'f pylib \<Rightarrow> 'f worksheet \<Rightarrow> int \<Rightarrow> int \<Rightarrow> StoreCols" where
  "store_at L ws hdr_row c =
     \<lparr>name = store_name L (resolved_value ws hdr_row c), pka_col = c, vat_col = c + 1\<rparr>"

definition pairs_from ::
  "'f pylib \<Rightarrow> 'f worksheet \<Rightarrow> int \<Rightarrow> int \<Rightarrow> int \<Rightarrow> int \<Rightarrow> StoreCols list \<Rightarrow> bool" where
  "pairs_from L ws hdr_row sub_row last_col c stores \<longleftrightarrow>
     (\<forall>st \<in> set stores. c \<le> pka_col st \<and> pka_col st \<le> last_col - 1 \<and>
        is_pair L ws sub_row (pka_col st) \<and> st = store_at L ws hdr_row (pka_col st)) \<and>
     sorted_wrt (\<lambda>a b. pka_col a + 3 \<le> pka_col b) stores \<and>
     (\<forall>c'. c \<le> c' \<and> c' \<le> last_col - 1 \<and> is_pair L ws sub_row c' \<longrightarrow>
        c' \<in> pka_col ` set stores \<or> c' - 2 \<in> pka_col ` set stores)"

text \<open>
  A header row with ``Store A'' above column C and the parameter above column F, and a
  subheader row with the three labels in C to E and the two labels in F and G.
\<close>

definition stride_sheet :: "real cell_value \<Rightarrow> real worksheet" where
  "stride_sheet h = \<lparr>cell_values = (\<lambda>_. VNone)
       ((1, 3) := VStr (of_ascii ''Store A''), (1, 6) := h,
        (2, 1) := VStr ANCHOR_TEXT, (2, 3) := VStr SUB_PKA, (2, 4) := VStr SUB_VAT,
        (2, 5) := VStr [1086, 1089, 1090], (2, 6) := VStr SUB_PKA, (2, 7) := VStr SUB_VAT),
     merged_ranges = [], ws_max_row = 2, ws_max_column = 7\<rparr>"

section \<open>Properties\<close>

subsection \<open>The merged-region resolver\<close>

lemma in_range_overlaps: "in_range a r c \<Longrightarrow> in_range b r c \<Longrightarrow> overlaps a b"
  by (auto simp: in_range_def overlaps_def)

lemma in_range_top_left: "in_range mr r c \<Longrightarrow> in_range mr (min_row mr) (min_col mr)"
  by (auto simp: in_range_def)

lemma find_in_range_unique:
  assumes "no_overlap ws" "mr \<in> set (merged_ranges ws)" "in_range mr r c"
  shows "find (\<lambda>m. in_range m r c) (merged_ranges ws) = Some mr"
proof (cases "find (\<lambda>m. in_range m r c) (merged_ranges ws)")
  case None
  with assms show ?thesis by (auto simp: find_None_iff)
next
  case (Some m)
  then have "m \<in> set (merged_ranges ws)" "in_range m r c"
    by (auto simp: find_Some_iff in_set_conv_nth)
  with assms have "m = mr"
    unfolding no_overlap_def using in_range_overlaps by blast
  with Some show ?thesis by simp
qed

lemma top_left_of_covered:
  assumes "no_overlap ws" "mr \<in> set (merged_ranges ws)" "in_range mr r c"
  shows "cell_top_left_of_merge ws r c = (min_row mr, min_col mr)"
  using find_in_range_unique [OF assms] by (simp add: cell_top_left_of_merge_def)

lemma overlap_sheet_33: "cell_top_left_of_merge overlap_sheet 3 3 = (2, 2)"
  by (simp add: cell_top_left_of_merge_def overlap_sheet_def in_range_def)

lemma overlap_sheet_22: "cell_top_left_of_merge overlap_sheet 2 2 = (1, 1)"
  by (simp add: cell_top_left_of_merge_def overlap_sheet_def in_range_def)

text \<open>
  C9, as stated: resolving a coordinate twice gives the same as resolving it once, for
  every sheet and coordinate. This fails on a sheet whose merged ranges overlap: with
  A1:B2 listed before B2:C3, the cell C3 resolves to B2, and B2 resolves to A1.
\<close>

theorem resolve_idempotent_counterexample:
  "(case cell_top_left_of_merge overlap_sheet 3 3 of
      (r0, c0) \<Rightarrow> cell_top_left_of_merge overlap_sheet r0 c0)
     \<noteq> cell_top_left_of_merge overlap_sheet 3 3"
  by (simp add: overlap_sheet_33 overlap_sheet_22)

text \<open>
  C9, amended: on a sheet whose merged ranges are pairwise disjoint, the resolver is
  idempotent at every coordinate, the top-left cell of a merged range included.
\<close>

theorem resolve_idempotent:
  assumes "no_overlap ws"
  shows "(case cell_top_left_of_merge ws row col of (r0, c0) \<Rightarrow> cell_top_left_of_merge ws r0 c0)
           = cell_top_left_of_merge ws row col"
proof (cases "find (\<lambda>m. in_range m row col) (merged_ranges ws)")
  case None
  then show ?thesis by (simp add: cell_top_left_of_merge_def)
next
  case (Some m)
  then have m: "m \<in> set (merged_ranges ws)" "in_range m row col"
    by (auto simp: find_Some_iff in_set_conv_nth)
  have "cell_top_left_of_merge ws (min_row m) (min_col m) = (min_row m, min_col m)"
    using top_left_of_covered [OF assms m(1) in_range_top_left [OF m(2)]] .
  moreover have "cell_top_left_of_merge ws row col = (min_row m, min_col m)"
    using Some by (simp add: cell_top_left_of_merge_def)
  ultimately show ?thesis by simp
qed

theorem resolve_idempotent_witness:
  "no_overlap merged_title_sheet \<and>
   cell_top_left_of_merge merged_title_sheet 3 2 = (2, 1) \<and>
   cell_top_left_of_merge merged_title_sheet 2 1 = (2, 1)"
proof -
  have h: "no_overlap merged_title_sheet"
    by (simp add: no_overlap_def merged_title_sheet_def)
  have a: "cell_top_left_of_merge merged_title_sheet 3 2 = (2, 1)"
    by (simp add: cell_top_left_of_merge_def merged_title_sheet_def in_range_def)
  from resolve_idempotent [OF h, of 3 2] a h show ?thesis by simp
qed

subsection \<open>Loops and reads\<close>

lemma foldE_append:
  "foldE f (xs @ ys) s = (case foldE f xs s of Inl e \<Rightarrow> Inl e | Inr s' \<Rightarrow> foldE f ys s')"
  by (induction xs arbitrary: s) (auto split: sum.splits)

lemma foldE_invariant:
  assumes "foldE f xs s = Inr s'" "P s"
    and "\<And>x t t'. x \<in> set xs \<Longrightarrow> P t \<Longrightarrow> f x t = Inr t' \<Longrightarrow> P t'"
  shows "P s'"
  using assms
proof (induction xs arbitrary: s)
  case Nil
  then show ?case by simp
next
  case (Cons x xs)
  from Cons.prems(1) obtain t where t: "f x s = Inr t" "foldE f xs t = Inr s'"
    by (auto split: sum.splits)
  have "P t" using Cons.prems(3) [of x s t] Cons.prems(2) t(1) by simp
  show ?case
  proof (rule Cons.IH [OF t(2) \<open>P t\<close>])
    fix y u u'
    assume "y \<in> set xs" "P u" "f y u = Inr u'"
    then show "P u'" using Cons.prems(3) [of y u u'] by simp
  qed
qed

lemma read_cell_ok:
  assumes "valid_ranges ws" "1 \<le> r" "1 \<le> c"
  shows "read_cell ws r c = Inr (resolved_value ws r c)"
proof (cases "find (\<lambda>m. in_range m r c) (merged_ranges ws)")
  case None
  with assms show ?thesis
    by (simp add: read_cell_def cell_top_left_of_merge_def ws_cell_def resolved_value_def)
next
  case (Some m)
  then have "m \<in> set (merged_ranges ws)"
    by (auto simp: find_Some_iff in_set_conv_nth)
  with assms(1) have "1 \<le> min_row m" "1 \<le> min_col m"
    by (auto simp: valid_ranges_def)
  with Some show ?thesis
    by (simp add: read_cell_def cell_top_left_of_merge_def ws_cell_def resolved_value_def)
qed

lemma read_cell_Inr: "read_cell ws r c = Inr v \<Longrightarrow> v = resolved_value ws r c"
  by (auto simp: read_cell_def resolved_value_def ws_cell_def split: prod.splits if_splits)

lemma norm_none: "norm_text L VNone = []"
  by (simp add: norm_text_def)

lemma anchor_nonempty: "ANCHOR_TEXT \<noteq> []"
  by (simp add: ANCHOR_TEXT_def)

lemma norm_anchor: "norm_text basic_lib (VStr ANCHOR_TEXT) = ANCHOR_TEXT"
  by (simp add: norm_text_def basic_lib_def strip_def replace_dashes_def is_space_def ANCHOR_TEXT_def)

subsection \<open>The anchor finder\<close>

lemma anchors_row:
  assumes "valid_ranges ws" "1 \<le> r" "\<forall>c \<in> set cs. 1 \<le> c"
  shows "foldE (\<lambda>c anchors.
              case read_cell ws r c of
                Inl e \<Rightarrow> Inl e
              | Inr v \<Rightarrow> Inr (if norm_text L v = ANCHOR_TEXT then anchors @ [(r, c)] else anchors))
            cs acc = Inr (acc @ filter (is_anchor L ws) (map (Pair r) cs))"
  using assms(3)
proof (induction cs arbitrary: acc)
  case Nil
  then show ?case by simp
next
  case (Cons c cs)
  then have "read_cell ws r c = Inr (resolved_value ws r c)"
    using read_cell_ok [OF assms(1,2)] by simp
  then show ?case using Cons by (simp add: is_anchor_def)
qed

lemma anchors_rows:
  assumes "valid_ranges ws" "\<forall>r \<in> set rs. 1 \<le> r"
  shows "foldE (\<lambda>r. foldE (\<lambda>c anchors.
              case read_cell ws r c of
                Inl e \<Rightarrow> Inl e
              | Inr v \<Rightarrow> Inr (if norm_text L v = ANCHOR_TEXT then anchors @ [(r, c)] else anchors))
            [1..last_col]) rs acc
         = Inr (acc @ filter (is_anchor L ws) (List.product rs [1..last_col]))"
  using assms(2)
proof (induction rs arbitrary: acc)
  case Nil
  then show ?case by simp
next
  case (Cons r rs)
  have "1 \<le> r" using Cons.prems by simp
  then show ?case using Cons anchors_row [OF assms(1), of r "[1..last_col]" L] by simp
qed

lemma find_table_anchors_eq:
  assumes "valid_ranges ws"
  shows "find_table_anchors L ws last_row last_col
           = Inr (filter (is_anchor L ws) (List.product [1..last_row] [1..last_col]))"
  unfolding find_table_anchors_def using anchors_rows [OF assms, of "[1..last_row]" L last_col "[]"]
  by simp

subsection \<open>The data extent\<close>

text \<open>
  Where the loop of \<open>data_row_end\<close> leaves through \<open>break\<close>: if rows \<open>k\<close> and
  \<open>k + 1\<close> are the first two consecutive blank rows from \<open>start_row\<close> on and lie in
  the window, the function returns \<open>k - 2\<close>. The last row before the blank run is
  \<open>k - 1\<close>.
\<close>

lemma data_row_loop_break:
  assumes v: "valid_ranges ws" and col: "1 \<le> col"
    and k: "k + 1 \<le> last_row" "is_blank L ws col k" "is_blank L ws col (k + 1)"
  shows "1 \<le> r \<Longrightarrow> r \<le> k \<Longrightarrow> b = 0 \<or> (b = 1 \<and> \<not> is_blank L ws col r) \<Longrightarrow>
         \<forall>j. r \<le> j \<and> j < k \<longrightarrow> \<not> (is_blank L ws col j \<and> is_blank L ws col (j + 1)) \<Longrightarrow>
         data_row_loop L ws col last_row r b = Inr (k + 1, 2)"
proof (induction "nat (k - r)" arbitrary: r b)
  case 0
  then have rk: "r = k" by simp
  have r1: "read_cell ws k col = Inr (resolved_value ws k col)"
    using read_cell_ok [OF v _ col] 0 rk by simp
  have r2: "read_cell ws (k + 1) col = Inr (resolved_value ws (k + 1) col)"
    using read_cell_ok [OF v _ col] 0 rk by simp
  have b0: "b = 0" using 0 rk k by auto
  show ?case
    using k r1 r2 unfolding rk b0
    by (simp add: data_row_loop.simps [of L ws col last_row k] 
        data_row_loop.simps [of L ws col last_row "k + 1"] is_blank_def)
next
  case (Suc n)
  then have lt: "r < k" by simp
  have rd: "read_cell ws r col = Inr (resolved_value ws r col)"
    using read_cell_ok [OF v _ col] Suc by simp
  have n: "n = nat (k - (r + 1))" using Suc by simp
  have nopair: "\<forall>j. r + 1 \<le> j \<and> j < k \<longrightarrow> \<not> (is_blank L ws col j \<and> is_blank L ws col (j + 1))"
    using Suc.prems(4) by auto
  show ?case
  proof (cases "is_blank L ws col r")
    case True
    then have b0: "b = 0" using Suc.prems(3) by auto
    have nb: "\<not> is_blank L ws col (r + 1)" using Suc.prems(4) lt True by auto
    have "data_row_loop L ws col last_row (r + 1) 1 = Inr (k + 1, 2)"
      using Suc.hyps(1) [OF n, of 1] Suc.prems lt nb nopair by simp
    then show ?thesis
      using True rd lt k(1) unfolding b0
      by (simp add: data_row_loop.simps [of L ws col last_row r] is_blank_def)
  next
    case False
    have "data_row_loop L ws col last_row (r + 1) 0 = Inr (k + 1, 2)"
      using Suc.hyps(1) [OF n, of 0] Suc.prems lt nopair by simp
    then show ?thesis
      using False rd lt k(1)
      by (simp add: data_row_loop.simps [of L ws col last_row r] is_blank_def)
  qed
qed

lemma data_row_end_at_blank_run:
  assumes "valid_ranges ws" "1 \<le> col" "1 \<le> start_row" "start_row \<le> k" "k + 1 \<le> last_row"
    and "is_blank L ws col k" "is_blank L ws col (k + 1)"
    and "\<forall>j. start_row \<le> j \<and> j < k \<longrightarrow> \<not> (is_blank L ws col j \<and> is_blank L ws col (j + 1))"
  shows "data_row_end L ws col start_row last_row = Inr (k - 2)"
  using data_row_loop_break [OF assms(1,2,5,6,7) assms(3,4) _ assms(8), of 0]
  by (simp add: data_row_end_def)


text \<open>
  C1: \<open>data_row_end\<close> should return the last non-blank row before the first run of two
  consecutive blank rows. On a sheet whose column A holds text in rows 1, 2 and 3 and
  is blank in rows 4 and 5, inside a window of 10 rows, that row is 3; the function
  returns 2.
\<close>

theorem data_row_end_drops_last_row:
  "\<not> is_blank basic_lib extent_sheet 1 3 \<and> is_blank basic_lib extent_sheet 1 4 \<and>
   is_blank basic_lib extent_sheet 1 5 \<and>
   data_row_end basic_lib extent_sheet 1 1 10 = Inr 2"
  by (simp add: data_row_end_def data_row_loop.simps read_cell_def cell_top_left_of_merge_def
      ws_cell_def extent_sheet_def norm_text_def basic_lib_def strip_def replace_dashes_def
      is_space_def of_ascii_def is_blank_def resolved_value_def)

subsection \<open>Reads outside the window\<close>

text \<open>
  No merged range reaches row 0, so a read of row 0 goes to the worksheet as it is and
  raises. The driver lookup of an anchor in row 1 is such a read: it is the first thing
  \<open>process_anchor\<close> does.
\<close>

lemma read_cell_row0:
  assumes "valid_ranges ws"
  shows "read_cell ws 0 c = Inl (ValueError 0 c)"
proof -
  have "find (\<lambda>m. in_range m 0 c) (merged_ranges ws) = None"
    using assms by (fastforce simp: find_None_iff valid_ranges_def in_range_def)
  then show ?thesis
    by (simp add: read_cell_def cell_top_left_of_merge_def ws_cell_def)
qed

lemma process_anchor_row1:
  assumes "valid_ranges ws"
  shows "process_anchor L ws last_row last_col (1, c) acc = Inl (ValueError 0 c)"
  by (simp add: process_anchor_def read_cell_row0 [OF assms])

lemma is_date_sheet_jan5:
  "is_date_sheet basic_lib (of_ascii ''05.01.2024'') = Some \<lparr>year = 2024, month = 1, day = 5\<rparr>"
  by (simp add: is_date_sheet_def DATE_PATTERN_def of_ascii_def is_digit_def strptime_dmy_def
      day_field_def month_field_def digits_value_def digit_val_def days_in_month_def)

lemma row1_select: "select_sheets basic_lib row1_book jan_1 jan_31 = [of_ascii ''05.01.2024'']"
  by (simp add: select_sheets_def sheetnames_def row1_book_def is_date_sheet_jan5 date_le_def
      jan_1_def jan_31_def)

lemma row1_valid: "valid_ranges row1_sheet"
  by (simp add: valid_ranges_def row1_sheet_def)

lemma row1_extent: "ws_max_row row1_sheet = 1" "ws_max_column row1_sheet = 1"
  by (simp_all add: row1_sheet_def)

lemma row1_anchors: "find_table_anchors basic_lib row1_sheet 1 1 = Inr [(1, 1)]"
  unfolding find_table_anchors_eq [OF row1_valid]
  by (simp add: upto.simps is_anchor_def resolved_value_def cell_top_left_of_merge_def
      row1_sheet_def norm_anchor)

text \<open>
  C4: every cell read of the scan should stay inside rows 1 to \<open>max_rows\<close> and
  columns 1 to \<open>max_cols\<close>. On a workbook whose sheet 05.01.2024 has the anchor phrase
  in A1, scanned for January 2024 with the default window, the driver lookup asks the
  worksheet for row 0, column 1, and the scan ends with the worksheet's ValueError.
\<close>

theorem scan_reads_row_zero:
  "scan_workbook basic_lib row1_book jan_1 jan_31 320 25 = Inl (ValueError 0 1)"
proof -
  have "scan_sheet basic_lib row1_book 320 25 1 (of_ascii ''05.01.2024'') st = Inl (ValueError 0 1)" for st
    using row1_anchors
    by (simp add: scan_sheet_def get_sheet_def row1_book_def int_or_def row1_extent
        process_anchor_row1 [OF row1_valid])
  then show ?thesis
    by (simp add: scan_workbook_def row1_select)
qed

subsection \<open>Sheet names\<close>









lemma length_pad_digits: "length (pad_digits k n) = k"
  by (induction k arbitrary: n) auto











lemmas eval_date =
  is_date_sheet_def DATE_PATTERN_def of_ascii_def is_digit_def strptime_dmy_def day_field_def
  month_field_def digits_value_def digit_val_def days_in_month_def is_leap_def




subsection \<open>to_number\<close>

lemma not_digit_46: "\<not> is_digit L 46" and not_digit_45: "\<not> is_digit L 45"
  by (simp_all add: is_digit_def)

lemma takeWhile_digits_dot:
  "list_all (is_digit L) ds \<Longrightarrow> takeWhile (is_digit L) (ds @ 46 # r) = ds"
  by (induction ds) (auto simp: not_digit_46)

lemma dropWhile_digits_dot:
  "list_all (is_digit L) ds \<Longrightarrow> dropWhile (is_digit L) (ds @ 46 # r) = 46 # r"
  by (induction ds) (auto simp: not_digit_46)

lemma takeWhile_all_digits: "list_all (is_digit L) (takeWhile (is_digit L) s)"
  by (induction s) auto

lemma length_takeWhile_prefix:
  "list_all (is_digit L) ds \<Longrightarrow> length ds \<le> length (takeWhile (is_digit L) (ds @ r))"
  by (induction ds) auto

lemma number_body_cases:
  "number_body L s = takeWhile (is_digit L) s \<or>
   (\<exists>r'. dropWhile (is_digit L) s = 46 # r' \<and> takeWhile (is_digit L) r' \<noteq> [] \<and>
      number_body L s = takeWhile (is_digit L) s @ 46 # takeWhile (is_digit L) r')"
  by (auto simp: number_body_def Let_def split: list.splits)

lemma number_body_unsigned:
  assumes "starts_with_digit L s"
  shows "is_unsigned_token L (number_body L s) \<and> (\<exists>post. s = number_body L s @ post)"
proof -
  let ?ds = "takeWhile (is_digit L) s" and ?r = "dropWhile (is_digit L) s"
  have ne: "?ds \<noteq> []" using assms by (cases s) (auto simp: starts_with_digit_def)
  have s: "s = ?ds @ ?r" by simp
  from number_body_cases [of L s] show ?thesis
  proof
    assume nb: "number_body L s = ?ds"
    have "is_unsigned_token L ?ds"
      unfolding is_unsigned_token_def using ne takeWhile_all_digits by blast
    then show ?thesis unfolding nb using s by blast
  next
    assume "\<exists>r'. ?r = 46 # r' \<and> takeWhile (is_digit L) r' \<noteq> [] \<and>
      number_body L s = ?ds @ 46 # takeWhile (is_digit L) r'"
    then obtain r' where r: "?r = 46 # r'" "takeWhile (is_digit L) r' \<noteq> []"
      and nb: "number_body L s = ?ds @ 46 # takeWhile (is_digit L) r'" by blast
    have "is_unsigned_token L (?ds @ 46 # takeWhile (is_digit L) r')"
      unfolding is_unsigned_token_def using ne r(2) takeWhile_all_digits by blast
    moreover have "s = (?ds @ 46 # takeWhile (is_digit L) r') @ dropWhile (is_digit L) r'"
      using s r(1) by (metis append.assoc append_Cons takeWhile_dropWhile_id)
    ultimately show ?thesis unfolding nb by blast
  qed
qed

lemma match_number_Some:
  assumes "match_number L s = Some t"
  shows "is_number_token L t \<and> (\<exists>post. s = t @ post)"
proof (cases s)
  case Nil
  with assms show ?thesis by (simp add: match_number_def)
next
  case (Cons c cs)
  show ?thesis
  proof (cases "c = 45 \<and> starts_with_digit L cs")
    case True
    then have t: "t = 45 # number_body L cs" using assms Cons by (simp add: match_number_def)
    from number_body_unsigned [of L cs] True obtain post where
      "is_unsigned_token L (number_body L cs)" "cs = number_body L cs @ post" by blast
    then show ?thesis unfolding t Cons using True
      by (metis append_Cons is_number_token_def)
  next
    case False
    then have d: "is_digit L c" and t: "t = number_body L s"
      using assms Cons by (auto simp: match_number_def split: if_splits)
    have "starts_with_digit L s" using d Cons by (simp add: starts_with_digit_def)
    from number_body_unsigned [OF this] show ?thesis
      unfolding t by (auto simp: is_number_token_def)
  qed
qed


lemma number_body_length: "length (takeWhile (is_digit L) s) \<le> length (number_body L s)"
  using number_body_cases [of L s] by auto

lemma number_body_longest:
  assumes "is_unsigned_token L u"
  shows "length u \<le> length (number_body L (u @ post))"
  using assms unfolding is_unsigned_token_def
proof
  assume "u \<noteq> [] \<and> list_all (is_digit L) u"
  then have "length u \<le> length (takeWhile (is_digit L) (u @ post))"
    by (simp add: length_takeWhile_prefix)
  then show ?thesis using number_body_length [of L "u @ post"] by simp
next
  assume "\<exists>ds fs. u = ds @ 46 # fs \<and> ds \<noteq> [] \<and> fs \<noteq> [] \<and>
            list_all (is_digit L) ds \<and> list_all (is_digit L) fs"
  then obtain ds fs where u: "u = ds @ 46 # fs" and ne: "fs \<noteq> []"
    and dg: "list_all (is_digit L) ds" "list_all (is_digit L) fs" by blast
  have s: "u @ post = ds @ 46 # (fs @ post)" by (simp add: u)
  have l: "length fs \<le> length (takeWhile (is_digit L) (fs @ post))"
    by (rule length_takeWhile_prefix [OF dg(2)])
  then have tn: "takeWhile (is_digit L) (fs @ post) \<noteq> []" using ne by auto
  have "number_body L (u @ post) = ds @ 46 # takeWhile (is_digit L) (fs @ post)"
    unfolding s number_body_def
    by (simp add: takeWhile_digits_dot [OF dg(1)] dropWhile_digits_dot [OF dg(1)] tn)
  then show ?thesis using l by (simp add: u)
qed

lemma unsigned_starts_with_digit:
  assumes "is_unsigned_token L u"
  shows "starts_with_digit L (u @ post)"
  using assms unfolding is_unsigned_token_def starts_with_digit_def
  by (cases u) (auto simp: Cons_eq_append_conv)

lemma match_number_longest:
  assumes "is_number_token L t'"
  shows "\<exists>t. match_number L (t' @ post) = Some t \<and> length t' \<le> length t"
  using assms unfolding is_number_token_def
proof
  assume u: "is_unsigned_token L t'"
  from unsigned_starts_with_digit [OF u, of post] obtain c cs where
    s: "t' @ post = c # cs" and d: "is_digit L c"
    by (auto simp: starts_with_digit_def split: list.splits)
  have "c \<noteq> 45" using d not_digit_45 by auto
  then have "match_number L (t' @ post) = Some (number_body L (t' @ post))"
    using d by (simp add: s match_number_def)
  then show ?thesis using number_body_longest [OF u, of post] by simp
next
  assume "\<exists>u. t' = 45 # u \<and> is_unsigned_token L u"
  then obtain u where t': "t' = 45 # u" and u: "is_unsigned_token L u" by blast
  have "match_number L (t' @ post) = Some (45 # number_body L (u @ post))"
    using unsigned_starts_with_digit [OF u, of post] by (simp add: t' match_number_def)
  then show ?thesis using number_body_longest [OF u, of post] by (simp add: t')
qed

lemma search_number_Some:
  "search_number L s = Some t \<Longrightarrow>
   \<exists>pre post. s = pre @ t @ post \<and> match_number L (t @ post) = Some t \<and>
     (\<forall>pre' r. s = pre' @ r \<and> length pre' < length pre \<longrightarrow> match_number L r = None)"
proof (induction s)
  case Nil
  then show ?case by simp
next
  case (Cons c cs)
  show ?case
  proof (cases "match_number L (c # cs)")
    case (Some m)
    then have m: "m = t" using Cons.prems by simp
    from match_number_Some [OF Some] obtain post where p: "c # cs = t @ post"
      unfolding m by blast
    have "c # cs = [] @ t @ post \<and> match_number L (t @ post) = Some t \<and>
       (\<forall>pre' r. c # cs = pre' @ r \<and> length pre' < length ([]::ustring) \<longrightarrow> match_number L r = None)"
      using Some p m by simp
    then show ?thesis by blast
  next
    case None
    then have "search_number L cs = Some t" using Cons.prems by simp
    from Cons.IH [OF this] obtain pre post where
      cs: "cs = pre @ t @ post" and mt: "match_number L (t @ post) = Some t"
      and fst: "\<forall>pre' r. cs = pre' @ r \<and> length pre' < length pre \<longrightarrow> match_number L r = None"
      by blast
    have "\<forall>pre' r. c # cs = pre' @ r \<and> length pre' < length (c # pre) \<longrightarrow> match_number L r = None"
    proof (intro allI impI)
      fix pre' r
      assume a: "c # cs = pre' @ r \<and> length pre' < length (c # pre)"
      show "match_number L r = None"
      proof (cases pre')
        case Nil
        then show ?thesis using a None by simp
      next
        case (Cons x xs)
        then have "cs = xs @ r \<and> length xs < length pre" using a by simp
        then show ?thesis using fst by blast
      qed
    qed
    moreover have "c # cs = (c # pre) @ t @ post" using cs by simp
    ultimately show ?thesis using mt by blast
  qed
qed

lemma search_number_None:
  "search_number L (pre @ r) = None \<Longrightarrow> match_number L r = None"
proof (induction pre)
  case Nil
  then show ?case by (cases r) (auto simp: match_number_def split: option.splits if_splits)
next
  case (Cons x xs)
  then have "search_number L (xs @ r) = None" by (auto split: option.splits)
  then show ?case by (rule Cons.IH)
qed

lemma search_number_first:
  assumes "search_number L s = Some t"
  shows "first_number_of L s t"
proof -
  from search_number_Some [OF assms] obtain pre post where
    s: "s = pre @ t @ post" and mt: "match_number L (t @ post) = Some t"
    and fst: "\<forall>pre' r. s = pre' @ r \<and> length pre' < length pre \<longrightarrow> match_number L r = None"
    by blast
  have tok: "is_number_token L t" using match_number_Some [OF mt] by simp
  have "length pre < length pre' \<or> (length pre' = length pre \<and> length t' \<le> length t)"
    if a: "s = pre' @ t' @ post'" "is_number_token L t'" for pre' t' post'
  proof -
    from match_number_longest [OF a(2), of post'] obtain m where
      m: "match_number L (t' @ post') = Some m" "length t' \<le> length m" by blast
    have nl: "\<not> length pre' < length pre" using fst a(1) m(1) by auto
    show ?thesis
    proof (cases "length pre' = length pre")
      case True
      then have "pre' = pre \<and> t' @ post' = t @ post" using s a(1) by (metis append_eq_append_conv)
      then have "m = t" using m(1) mt by simp
      then show ?thesis using True m(2) by simp
    next
      case False
      then show ?thesis using nl by simp
    qed
  qed
  then show ?thesis unfolding first_number_of_def using s tok by blast
qed

lemma search_number_no_number:
  assumes "search_number L s = None"
  shows "\<not> has_number L s"
proof
  assume "has_number L s"
  then obtain pre t post where s: "s = pre @ t @ post" and tok: "is_number_token L t"
    unfolding has_number_def by blast
  from match_number_longest [OF tok, of post] obtain m where
    "match_number L (t @ post) = Some m" by blast
  moreover have "match_number L (t @ post) = None"
    using search_number_None [of L pre "t @ post"] assms s by simp
  ultimately show False by simp
qed

lemma first_number_has: "first_number_of L s t \<Longrightarrow> has_number L s"
  unfolding first_number_of_def has_number_def by blast

lemma first_number_unique:
  assumes "first_number_of L s t" "first_number_of L s t0"
  shows "t = t0"
proof -
  from assms(1) obtain pre post where s: "s = pre @ t @ post" "is_number_token L t"
    and a: "\<And>pre' t' post'. s = pre' @ t' @ post' \<Longrightarrow> is_number_token L t' \<Longrightarrow>
           length pre < length pre' \<or> (length pre' = length pre \<and> length t' \<le> length t)"
    unfolding first_number_of_def by blast
  from assms(2) obtain pre0 post0 where s0: "s = pre0 @ t0 @ post0" "is_number_token L t0"
    and b: "\<And>pre' t' post'. s = pre' @ t' @ post' \<Longrightarrow> is_number_token L t' \<Longrightarrow>
           length pre0 < length pre' \<or> (length pre' = length pre0 \<and> length t' \<le> length t0)"
    unfolding first_number_of_def by blast
  from a [OF s0] b [OF s] have l: "length pre = length pre0" "length t = length t0" by auto
  from s(1) s0(1) l(1) have "t @ post = t0 @ post0" by (metis append_eq_append_conv)
  with l(2) show ?thesis by (metis append_eq_append_conv)
qed

lemma search_number_iff: "search_number L s = Some t \<longleftrightarrow> first_number_of L s t"
proof
  assume "search_number L s = Some t"
  then show "first_number_of L s t" by (rule search_number_first)
next
  assume f: "first_number_of L s t"
  show "search_number L s = Some t"
  proof (cases "search_number L s")
    case None
    then show ?thesis using search_number_no_number first_number_has [OF f] by blast
  next
    case (Some t0)
    then show ?thesis using first_number_unique [OF f search_number_first [OF Some]] by simp
  qed
qed

lemma search_number_None_iff: "search_number L s = None \<longleftrightarrow> \<not> has_number L s"
  using search_number_no_number search_number_first first_number_has
  by (metis not_Some_eq)



lemmas eval_number =
  of_ascii_def strip_def is_space_def replace_comma_def match_number_def starts_with_digit_def
  is_digit_def number_body_def basic_lib_def basic_digit_def

lemma search_one_comma_five:
  "search_number basic_lib (replace_comma (strip (of_ascii ''1,5''))) = Some (of_ascii ''1.5'')"
  by (simp add: eval_number)

lemma search_abc: "search_number basic_lib (replace_comma (strip (of_ascii ''abc''))) = None"
  by (simp add: eval_number)

lemma search_arabic_three: "search_number basic_lib (replace_comma (strip [1635])) = Some [1635]"
  by (simp add: eval_number)

lemma basic_float_values:
  "float_of_str basic_lib (of_ascii ''1.5'') = 3 / 2" "float_of_str basic_lib [1635] = 3"
  "float_of_int basic_lib i = of_int i"
  by (simp_all add: basic_lib_def basic_float_def basic_unsigned_def basic_digits_value_def
      of_ascii_def)

text \<open>
  C6, as stated: \<open>to_number\<close> never raises. An integer cell value beyond the range of
  a double makes \<open>float(v)\<close> raise OverflowError.
\<close>

theorem to_number_spec_counterexample:
  "to_number basic_lib (VInt (2 ^ 1024)) = Inl OverflowError"
  by (simp add: FLOAT_INT_LIMIT_def)

text \<open>
  C6, amended: \<open>to_number\<close> raises only OverflowError, and only on an integer of
  magnitude \<open>2^1024 - 2^970\<close> or more. Otherwise it returns \<open>0.0\<close> for an absent
  value, the value itself for a float, \<open>float\<close> of the value for an integer (of 1 or 0
  for a boolean), and for text \<open>float\<close> of the first signed integer or decimal in the
  stripped text with commas replaced by periods, or \<open>0.0\<close> when the text holds none.
\<close>

theorem to_number_spec:
  "(to_number L v = Inl e \<longleftrightarrow> e = OverflowError \<and> (\<exists>i. v = VInt i \<and> FLOAT_INT_LIMIT \<le> \<bar>i\<bar>)) \<and>
   (v = VNone \<longrightarrow> to_number L v = Inr (float_of_int L 0)) \<and>
   (v = VFloat x \<longrightarrow> to_number L v = Inr x) \<and>
   (v = VBool b \<longrightarrow> to_number L v = Inr (float_of_int L (if b then 1 else 0))) \<and>
   (v = VInt i \<and> \<bar>i\<bar> < FLOAT_INT_LIMIT \<longrightarrow> to_number L v = Inr (float_of_int L i)) \<and>
   (v = VStr s \<and> first_number_of L (replace_comma (strip s)) t \<longrightarrow>
      to_number L v = Inr (float_of_str L t)) \<and>
   (v = VStr s \<and> \<not> has_number L (replace_comma (strip s)) \<longrightarrow>
      to_number L v = Inr (float_of_int L 0))"
proof -
  have raise: "to_number L v = Inl e \<longleftrightarrow>
      e = OverflowError \<and> (\<exists>i. v = VInt i \<and> FLOAT_INT_LIMIT \<le> \<bar>i\<bar>)"
    by (cases v) (auto split: option.splits)
  have str1: "to_number L (VStr s) = Inr (float_of_str L t)"
    if "first_number_of L (replace_comma (strip s)) t"
    using that by (simp add: search_number_iff [symmetric])
  have str2: "to_number L (VStr s) = Inr (float_of_int L 0)"
    if "\<not> has_number L (replace_comma (strip s))"
    using that by (simp add: search_number_None_iff [symmetric])
  show ?thesis using raise str1 str2 by auto
qed

theorem to_number_spec_witness:
  "to_number basic_lib (VStr (of_ascii ''1,5'')) = Inr (3 / 2) \<and>
   to_number basic_lib (VStr (of_ascii ''abc'')) = Inr 0 \<and>
   to_number basic_lib VNone = Inr 0 \<and>
   to_number basic_lib (VInt 7) = Inr 7 \<and>
   to_number basic_lib (VStr [1635]) = Inr 3"
proof -
  let ?L = "basic_lib"
  have a: "first_number_of ?L (replace_comma (strip (of_ascii ''1,5''))) (of_ascii ''1.5'')"
    using search_one_comma_five search_number_iff by blast
  have b: "\<not> has_number ?L (replace_comma (strip (of_ascii ''abc'')))"
    using search_abc search_number_None_iff by blast
  have c: "\<bar>7::int\<bar> < FLOAT_INT_LIMIT" by (simp add: FLOAT_INT_LIMIT_def)
  have d: "first_number_of ?L (replace_comma (strip [1635])) [1635]"
    using search_arabic_three search_number_iff by blast
  have 1: "to_number ?L (VStr (of_ascii ''1,5'')) = Inr (float_of_str ?L (of_ascii ''1.5''))"
    using to_number_spec [of ?L "VStr (of_ascii ''1,5'')" _ _ _ _ "of_ascii ''1,5''" "of_ascii ''1.5''"] a
    by blast
  have 2: "to_number ?L (VStr (of_ascii ''abc'')) = Inr (float_of_int ?L 0)"
    using to_number_spec [of ?L "VStr (of_ascii ''abc'')" _ _ _ _ "of_ascii ''abc''"] b by blast
  have 3: "to_number ?L VNone = Inr (float_of_int ?L 0)"
    using to_number_spec [of ?L VNone] by blast
  have 4: "to_number ?L (VInt 7) = Inr (float_of_int ?L 7)"
    using to_number_spec [of ?L "VInt 7" _ _ _ 7] c by blast
  have 5: "to_number ?L (VStr [1635]) = Inr (float_of_str ?L [1635])"
    using to_number_spec [of ?L "VStr [1635]" _ _ _ _ "[1635]" "[1635]"] d by blast
  show ?thesis using 1 2 3 4 5 by (simp add: basic_float_values)
qed

subsection \<open>The aggregator\<close>

text \<open>The ways \<open>process_anchor\<close> returns: the table is skipped, or every data row is summed.\<close>

lemma process_anchor_Inr:
  assumes "process_anchor L ws last_row last_col (ar, ac) acc = Inr acc'"
  obtains (skip) driver_raw stores where
      "read_cell ws (ar - 1) ac = Inr driver_raw"
      "detect_store_columns L ws (ar - 1) ar (ac + 2) last_col = Inr stores"
      "stores = [] \<or> (\<exists>data_end. data_row_end L ws ac (ar + 1) last_row = Inr data_end \<and>
                          data_end < ar + 1)"
      "acc' = acc"
  | (sum) driver_raw stores data_end where
      "read_cell ws (ar - 1) ac = Inr driver_raw"
      "detect_store_columns L ws (ar - 1) ar (ac + 2) last_col = Inr stores"
      "stores \<noteq> []"
      "data_row_end L ws ac (ar + 1) last_row = Inr data_end"
      "ar + 1 \<le> data_end"
      "foldE (\<lambda>r. foldE (add_cell L ws (norm_text L driver_raw \<noteq> [])
                              (pretty_text L driver_raw) r) stores)
         [ar + 1..data_end] acc = Inr acc'"
proof (cases "read_cell ws (ar - 1) ac")
  case (Inl e)
  then show ?thesis using assms by (simp add: process_anchor_def)
next
  case dr: (Inr driver_raw)
  show ?thesis
  proof (cases "detect_store_columns L ws (ar - 1) ar (ac + 2) last_col")
    case (Inl e)
    then show ?thesis using assms dr by (simp add: process_anchor_def)
  next
    case ds: (Inr stores)
    show ?thesis
    proof (cases "stores = []")
      case True
      then have "acc' = acc" using assms dr ds by (simp add: process_anchor_def)
      then show ?thesis using skip [OF dr ds] True by blast
    next
      case ne: False
      show ?thesis
      proof (cases "data_row_end L ws ac (ar + 1) last_row")
        case (Inl e)
        then show ?thesis using assms dr ds ne by (simp add: process_anchor_def)
      next
        case de: (Inr data_end)
        show ?thesis
        proof (cases "data_end < ar + 1")
          case True
          then have "acc' = acc" using assms dr ds ne de by (simp add: process_anchor_def)
          then show ?thesis using skip [OF dr ds] de True by blast
        next
          case False
          then have "foldE (\<lambda>r. foldE (add_cell L ws (norm_text L driver_raw \<noteq> [])
                              (pretty_text L driver_raw) r) stores)
                [ar + 1..data_end] acc = Inr acc'"
            using assms dr ds ne de by (simp add: process_anchor_def)
          then show ?thesis using sum [OF dr ds ne de] False by simp
        qed
      qed
    qed
  qed
qed

text \<open>The way \<open>scan_sheet\<close> returns: the sheet is found, the anchor finder returns on
  its window, and every anchor goes through \<open>process_anchor\<close>.\<close>

lemma window_eq:
  "min (int_or (ws_max_row ws) max_rows) max_rows = window_rows ws max_rows"
  "min (int_or (ws_max_column ws) max_cols) max_cols = window_cols ws max_cols"
  by (simp_all add: int_or_def window_rows_def window_cols_def)

lemma scan_sheet_Inr:
  assumes "scan_sheet L wb max_rows max_cols n nm st = Inr st'"
  obtains ws anchors where
    "get_sheet wb nm = Inr ws"
    "find_table_anchors L ws (window_rows ws max_rows) (window_cols ws max_cols) = Inr anchors"
    "foldE (process_anchor L ws (window_rows ws max_rows) (window_cols ws max_cols)) anchors
       (stores_totals st, drivers_totals st) = Inr (stores_totals st', drivers_totals st')"
    "log_lines st' =
       log_lines st @ [(nm, length anchors, window_cols ws max_cols, window_rows ws max_rows)]"
proof (cases "get_sheet wb nm")
  case (Inl e)
  then show ?thesis using assms by (simp add: scan_sheet_def)
next
  case g: (Inr ws)
  let ?lr = "window_rows ws max_rows" and ?lc = "window_cols ws max_cols"
  show ?thesis
  proof (cases "find_table_anchors L ws ?lr ?lc")
    case (Inl e)
    then show ?thesis using assms g by (simp add: scan_sheet_def window_eq Let_def)
  next
    case a: (Inr anchors)
    show ?thesis
    proof (cases "foldE (process_anchor L ws ?lr ?lc) anchors (stores_totals st, drivers_totals st)")
      case (Inl e)
      then show ?thesis using assms g a by (simp add: scan_sheet_def window_eq Let_def)
    next
      case f: (Inr acc)
      obtain s' d' where acc: "acc = (s', d')" by (cases acc)
      have st': "st' = st\<lparr>stores_totals := s', drivers_totals := d',
                            sheets_done := sheets_done st + 1,
                            log_lines := log_lines st @ [(nm, length anchors, ?lc, ?lr)],
                            progress_calls := progress_calls st @ [(sheets_done st + 1, n)]\<rparr>"
        using assms g a f acc by (simp add: scan_sheet_def window_eq Let_def)
      show ?thesis
      proof (rule that [OF g a])
        show "foldE (process_anchor L ws ?lr ?lc) anchors (stores_totals st, drivers_totals st)
                = Inr (stores_totals st', drivers_totals st')"
          using f acc st' by simp
        show "log_lines st' = log_lines st @ [(nm, length anchors, ?lc, ?lr)]"
          using st' by simp
      qed
    qed
  qed
qed

lemma foldE_split:
  assumes "foldE f (pre @ x # post) s = Inr s'"
  obtains a b where "foldE f pre s = Inr a" "f x a = Inr b" "foldE f post b = Inr s'"
proof (cases "foldE f pre s")
  case (Inl e)
  then show ?thesis using assms by (simp add: foldE_append)
next
  case a: (Inr a)
  show ?thesis
  proof (cases "f x a")
    case (Inl e)
    then show ?thesis using assms a by (simp add: foldE_append)
  next
    case b: (Inr b)
    then have "foldE f post b = Inr s'" using assms a by (simp add: foldE_append)
    then show ?thesis using that [OF a b] by blast
  qed
qed

subsection \<open>The example tables\<close>

lemmas eval_text =
  norm_text_def basic_lib_def strip_def replace_dashes_def is_space_def of_ascii_def
  ANCHOR_TEXT_def SUB_PKA_def SUB_VAT_def UNNAMED_def str_int_def str_nat.simps pretty_text_def

lemmas eval_read = read_cell_def cell_top_left_of_merge_def ws_cell_def

lemma small_ints:
  "\<not> FLOAT_INT_LIMIT \<le> 5" "\<not> FLOAT_INT_LIMIT \<le> 4" "\<not> FLOAT_INT_LIMIT \<le> 3"
  "\<not> FLOAT_INT_LIMIT \<le> 2" "\<not> FLOAT_INT_LIMIT \<le> 1"
  by (simp_all add: FLOAT_INT_LIMIT_def)

lemma basic_float_ops:
  "float_of_int basic_lib i = of_int i" "float_add basic_lib x y = x + y"
  "float_nonneg basic_lib x \<longleftrightarrow> 0 \<le> x" "float_is_zero basic_lib x \<longleftrightarrow> x = 0"
  by (simp_all add: basic_lib_def)

lemma sample_valid: "valid_ranges (sample_sheet d b)"
  by (simp add: valid_ranges_def sample_sheet_def)

lemma sample_extent: "ws_max_row (sample_sheet d b) = 4" "ws_max_column (sample_sheet d b) = 4"
  by (simp_all add: sample_sheet_def)

lemma sample_window:
  "window_rows (sample_sheet d b) 320 = 4" "window_cols (sample_sheet d b) 25 = 4"
  by (simp_all add: window_rows_def window_cols_def sample_extent)

lemma sample_anchors:
  assumes "norm_text basic_lib d \<noteq> ANCHOR_TEXT" "norm_text basic_lib b \<noteq> ANCHOR_TEXT"
  shows "find_table_anchors basic_lib (sample_sheet d b) 4 4 = Inr [(2, 1)]"
  unfolding find_table_anchors_eq [OF sample_valid]
  using assms
  by (simp add: upto.simps is_anchor_def resolved_value_def cell_top_left_of_merge_def
      sample_sheet_def) (simp add: eval_text)

lemma sample_detect:
  "detect_store_columns basic_lib (sample_sheet d b) 1 2 3 4
     = Inr [\<lparr>name = of_ascii ''Store A'', pka_col = 3, vat_col = 4\<rparr>]"
  by (simp add: detect_store_columns_def detect_loop.simps eval_read sample_sheet_def eval_text)

lemma sample_data_end: "data_row_end basic_lib (sample_sheet d b) 1 3 4 = Inr 4"
  by (simp add: data_row_end_def data_row_loop.simps eval_read sample_sheet_def eval_text)

lemma sample_totals_at: "sample_totals k x k = Some \<lparr>brought = x + 3, returned = 3\<rparr>"
  by (simp add: sample_totals_def add_totals_def basic_float_ops)


lemma sample_process:
  assumes "to_number basic_lib b = Inr x"
  shows "process_anchor basic_lib (sample_sheet d b) 4 4 (2, 1) (S, D)
     = Inr (add_totals basic_lib (add_totals basic_lib S (of_ascii ''Store A'') x 2)
              (of_ascii ''Store A'') 3 1,
            if norm_text basic_lib d \<noteq> [] then
              add_totals basic_lib (add_totals basic_lib D (pretty_text basic_lib d) x 2)
                (pretty_text basic_lib d) 3 1
            else D)"
proof -
  have dr: "read_cell (sample_sheet d b) 1 1 = Inr d"
    by (simp add: eval_read sample_sheet_def)
  have c: "read_cell (sample_sheet d b) 3 3 = Inr b"
    "read_cell (sample_sheet d b) 3 4 = Inr (VInt 2)"
    "read_cell (sample_sheet d b) 4 3 = Inr (VInt 3)"
    "read_cell (sample_sheet d b) 4 4 = Inr (VInt 1)"
    by (simp_all add: eval_read sample_sheet_def)
  show ?thesis
    using sample_detect [of d b] sample_data_end [of d b]
    by (simp add: process_anchor_def dr upto.simps add_cell_def c assms small_ints basic_float_ops)
qed

lemma is_date_sheet_jan1:
  "is_date_sheet basic_lib (of_ascii ''01.01.2024'') = Some \<lparr>year = 2024, month = 1, day = 1\<rparr>"
  by (simp add: eval_date)

lemma is_date_sheet_feb1:
  "is_date_sheet basic_lib (of_ascii ''01.02.2024'') = Some \<lparr>year = 2024, month = 2, day = 1\<rparr>"
  by (simp add: eval_date)

lemma is_date_sheet_summary: "is_date_sheet basic_lib (of_ascii ''Summary'') = None"
  by (simp add: eval_date)

lemma sample_scan:
  assumes "to_number basic_lib b = Inr x"
    "norm_text basic_lib d \<noteq> ANCHOR_TEXT" "norm_text basic_lib b \<noteq> ANCHOR_TEXT"
    "norm_text basic_lib d \<noteq> []"
  shows "scan_workbook basic_lib (sample_book d b) jan_1 jan_31 320 25 =
     Inr (\<lparr>stores_totals = sample_totals (of_ascii ''Store A'') x,
           drivers_totals = sample_totals (pretty_text basic_lib d) x, sheets_done = 1,
           log_lines = [(of_ascii ''05.01.2024'', 1, 4, 4)], progress_calls = [(1, 1)]\<rparr>,
          \<lparr>sheets_scanned = 1, meta_from = jan_1, meta_to = jan_31,
           meta_max_rows = 320, meta_max_cols = 25\<rparr>)"
proof -
  have s: "select_sheets basic_lib (sample_book d b) jan_1 jan_31 = [of_ascii ''05.01.2024'']"
    by (simp add: select_sheets_def sheetnames_def sample_book_def is_date_sheet_jan5 date_le_def
        jan_1_def jan_31_def)
  have g: "get_sheet (sample_book d b) (of_ascii ''05.01.2024'') = Inr (sample_sheet d b)"
    by (simp add: get_sheet_def sample_book_def)
  show ?thesis
    by (simp add: scan_workbook_def s scan_sheet_def g int_or_def sample_extent
        sample_anchors [OF assms(2,3)] sample_process [OF assms(1)] assms(4) sample_totals_def)
qed

lemma ivanov_text:
  "norm_text basic_lib ivanov \<noteq> ANCHOR_TEXT" "norm_text basic_lib ivanov \<noteq> []"
  "pretty_text basic_lib ivanov = of_ascii ''Ivanov''"
  by (simp_all add: ivanov_def eval_text truthy.simps)

lemma norm_int_not_anchor:
  "norm_text basic_lib (VInt 5) \<noteq> ANCHOR_TEXT" "norm_text basic_lib (VInt (- 5)) \<noteq> ANCHOR_TEXT"
  "norm_text basic_lib (VInt 0) \<noteq> ANCHOR_TEXT"
  by (simp_all add: eval_text)

lemma to_number_small:
  "to_number basic_lib (VInt 5) = Inr 5" "to_number basic_lib (VInt (- 5)) = Inr (- 5)"
  by (simp_all add: FLOAT_INT_LIMIT_def basic_float_ops)

subsection \<open>Merged titles\<close>

lemma merged_table_valid: "valid_ranges merged_table_sheet"
  by (simp add: valid_ranges_def merged_table_sheet_def)

lemma merged_table_no_overlap: "no_overlap merged_table_sheet"
  by (simp add: no_overlap_def merged_table_sheet_def)

lemma merged_table_window:
  "window_rows merged_table_sheet 320 = 3" "window_cols merged_table_sheet 25 = 8"
  by (simp_all add: window_rows_def window_cols_def merged_table_sheet_def)

lemma merged_table_anchors:
  "find_table_anchors basic_lib merged_table_sheet 3 8 = Inr [(2, 1), (2, 2)]"
  unfolding find_table_anchors_eq [OF merged_table_valid]
  by (simp add: upto.simps is_anchor_def resolved_value_def cell_top_left_of_merge_def
      in_range_def merged_table_sheet_def) (simp add: eval_text)

lemma merged_table_detect:
  "detect_store_columns basic_lib merged_table_sheet 1 2 3 8
     = Inr [\<lparr>name = of_ascii ''Store A'', pka_col = 3, vat_col = 4\<rparr>,
            \<lparr>name = of_ascii ''Store B'', pka_col = 6, vat_col = 7\<rparr>]"
  "detect_store_columns basic_lib merged_table_sheet 1 2 4 8
     = Inr [\<lparr>name = of_ascii ''Store B'', pka_col = 6, vat_col = 7\<rparr>]"
  by (simp_all add: detect_store_columns_def detect_loop.simps eval_read in_range_def
      merged_table_sheet_def eval_text)

lemma merged_table_data_end:
  "data_row_end basic_lib merged_table_sheet 1 3 3 = Inr 3"
  "data_row_end basic_lib merged_table_sheet 2 3 3 = Inr 3"
  by (simp_all add: data_row_end_def data_row_loop.simps eval_read in_range_def
      merged_table_sheet_def eval_text)

lemma store_a_b: "store_a \<noteq> store_b"
  by (simp add: store_a_def store_b_def of_ascii_def)

lemma merged_table_process:
  "process_anchor basic_lib merged_table_sheet 3 8 (2, 1) (S, D)
     = Inr (add_totals basic_lib (add_totals basic_lib S store_a 5 2) store_b 4 1, D)"
  "process_anchor basic_lib merged_table_sheet 3 8 (2, 2) (S, D)
     = Inr (add_totals basic_lib S store_b 4 1, D)"
proof -
  have dr: "read_cell merged_table_sheet 1 1 = Inr VNone" "read_cell merged_table_sheet 1 2 = Inr VNone"
    by (simp_all add: eval_read in_range_def merged_table_sheet_def)
  have c: "read_cell merged_table_sheet 3 3 = Inr (VInt 5)"
    "read_cell merged_table_sheet 3 4 = Inr (VInt 2)"
    "read_cell merged_table_sheet 3 6 = Inr (VInt 4)"
    "read_cell merged_table_sheet 3 7 = Inr (VInt 1)"
    by (simp_all add: eval_read in_range_def merged_table_sheet_def)
  show "process_anchor basic_lib merged_table_sheet 3 8 (2, 1) (S, D)
     = Inr (add_totals basic_lib (add_totals basic_lib S store_a 5 2) store_b 4 1, D)"
    using merged_table_detect(1) merged_table_data_end(1)
    by (simp add: process_anchor_def dr norm_none upto.simps add_cell_def c small_ints
        basic_float_ops store_a_def store_b_def)
  show "process_anchor basic_lib merged_table_sheet 3 8 (2, 2) (S, D)
     = Inr (add_totals basic_lib S store_b 4 1, D)"
    using merged_table_detect(2) merged_table_data_end(2)
    by (simp add: process_anchor_def dr norm_none upto.simps add_cell_def c small_ints
        basic_float_ops store_a_def store_b_def)
qed

lemma top_title_valid: "valid_ranges top_title_sheet"
  by (simp add: valid_ranges_def top_title_sheet_def)

lemma top_title_anchors:
  "find_table_anchors basic_lib top_title_sheet 2 2 = Inr [(1, 1), (1, 2), (2, 1), (2, 2)]"
  unfolding find_table_anchors_eq [OF top_title_valid]
  by (simp add: upto.simps is_anchor_def resolved_value_def cell_top_left_of_merge_def
      in_range_def top_title_sheet_def norm_anchor)

lemma top_title_scan:
  "scan_workbook basic_lib top_title_book jan_1 jan_31 320 25 = Inl (ValueError 0 1)"
proof -
  have s: "select_sheets basic_lib top_title_book jan_1 jan_31 = [of_ascii ''05.01.2024'']"
    by (simp add: select_sheets_def sheetnames_def top_title_book_def is_date_sheet_jan5
        date_le_def jan_1_def jan_31_def)
  have e: "ws_max_row top_title_sheet = 2" "ws_max_column top_title_sheet = 2"
    by (simp_all add: top_title_sheet_def)
  have "scan_sheet basic_lib top_title_book 320 25 1 (of_ascii ''05.01.2024'') st
          = Inl (ValueError 0 1)" for st
    using top_title_anchors
    by (simp add: scan_sheet_def get_sheet_def top_title_book_def int_or_def e
        process_anchor_row1 [OF top_title_valid])
  then show ?thesis
    by (simp add: scan_workbook_def s)
qed

text \<open>
  C10, as stated: every in-window cell covered by a merged range whose top-left cell
  holds the anchor phrase is returned as an anchor, and each of these anchors is
  aggregated as a table of its own. The first half fails when another merged range,
  listed first, also covers the cell: B1 is covered by A1:B1, whose top-left cell holds
  the anchor phrase, but B1 resolves to B1:C1 and is not returned. The second half
  fails when the merged range covers row 1: with the title merged over A1:B2 the anchor
  finder returns the four cells, and the scan ends with the worksheet's ValueError for
  row 0 at the first of them, so that none is aggregated.
\<close>

theorem merged_anchor_every_cell_counterexample:
  "(valid_ranges overlap_anchor_sheet \<and>
    \<lparr>min_row = 1, min_col = 1, max_row = 1, max_col = 2\<rparr> \<in> set (merged_ranges overlap_anchor_sheet) \<and>
    norm_text basic_lib (cell_values overlap_anchor_sheet (1, 1)) = ANCHOR_TEXT \<and>
    in_range \<lparr>min_row = 1, min_col = 1, max_row = 1, max_col = 2\<rparr> 1 2 \<and>
    find_table_anchors basic_lib overlap_anchor_sheet 1 3 = Inr [(1, 1)]) \<and>
   (valid_ranges top_title_sheet \<and> no_overlap top_title_sheet \<and>
    \<lparr>min_row = 1, min_col = 1, max_row = 2, max_col = 2\<rparr> \<in> set (merged_ranges top_title_sheet) \<and>
    norm_text basic_lib (cell_values top_title_sheet (1, 1)) = ANCHOR_TEXT \<and>
    find_table_anchors basic_lib top_title_sheet 2 2 = Inr [(1, 1), (1, 2), (2, 1), (2, 2)] \<and>
    scan_workbook basic_lib top_title_book jan_1 jan_31 320 25 = Inl (ValueError 0 1))"
proof -
  have v: "valid_ranges overlap_anchor_sheet"
    by (simp add: valid_ranges_def overlap_anchor_sheet_def)
  have "find_table_anchors basic_lib overlap_anchor_sheet 1 3 = Inr [(1, 1)]"
    unfolding find_table_anchors_eq [OF v]
    by (simp add: upto.simps is_anchor_def resolved_value_def cell_top_left_of_merge_def in_range_def
        overlap_anchor_sheet_def norm_anchor norm_none anchor_nonempty [symmetric])
  then have 1: "valid_ranges overlap_anchor_sheet \<and>
    \<lparr>min_row = 1, min_col = 1, max_row = 1, max_col = 2\<rparr> \<in> set (merged_ranges overlap_anchor_sheet) \<and>
    norm_text basic_lib (cell_values overlap_anchor_sheet (1, 1)) = ANCHOR_TEXT \<and>
    in_range \<lparr>min_row = 1, min_col = 1, max_row = 1, max_col = 2\<rparr> 1 2 \<and>
    find_table_anchors basic_lib overlap_anchor_sheet 1 3 = Inr [(1, 1)]"
    using v by (simp add: overlap_anchor_sheet_def norm_anchor in_range_def)
  have 2: "no_overlap top_title_sheet \<and>
    \<lparr>min_row = 1, min_col = 1, max_row = 2, max_col = 2\<rparr> \<in> set (merged_ranges top_title_sheet) \<and>
    norm_text basic_lib (cell_values top_title_sheet (1, 1)) = ANCHOR_TEXT"
    by (simp add: no_overlap_def top_title_sheet_def norm_anchor)
  show ?thesis using 1 2 top_title_valid top_title_anchors top_title_scan by blast
qed

text \<open>
  C10, amended: on a sheet whose merged ranges are pairwise disjoint, every cell of the
  window that is covered by a merged range whose top-left cell holds the anchor phrase
  is an entry of its own in the list \<open>find_table_anchors\<close> returns; and whenever the
  scan of the sheet completes, the aggregation has run on that entry as on a table of
  its own, between the entries before it and the entries after it.
\<close>

theorem merged_anchor_every_cell:
  assumes "valid_ranges ws" "no_overlap ws"
    and "mr \<in> set (merged_ranges ws)"
    and "norm_text L (cell_values ws (min_row mr, min_col mr)) = ANCHOR_TEXT"
    and "in_range mr r c" "r \<le> last_row" "c \<le> last_col"
  shows "\<exists>anchors pre post.
           find_table_anchors L ws last_row last_col = Inr anchors \<and>
           (r, c) \<in> set anchors \<and> distinct anchors \<and> anchors = pre @ (r, c) # post \<and>
           (\<forall>wb max_rows max_cols n nm st st'.
              get_sheet wb nm = Inr ws \<and>
              last_row = window_rows ws max_rows \<and> last_col = window_cols ws max_cols \<and>
              scan_sheet L wb max_rows max_cols n nm st = Inr st' \<longrightarrow>
              (\<exists>a b.
                 foldE (process_anchor L ws last_row last_col) pre
                   (stores_totals st, drivers_totals st) = Inr a \<and>
                 process_anchor L ws last_row last_col (r, c) a = Inr b \<and>
                 foldE (process_anchor L ws last_row last_col) post b
                   = Inr (stores_totals st', drivers_totals st')))"
proof -
  let ?as = "filter (is_anchor L ws) (List.product [1..last_row] [1..last_col])"
  have eq: "find_table_anchors L ws last_row last_col = Inr ?as"
    by (rule find_table_anchors_eq [OF assms(1)])
  have "1 \<le> r" "1 \<le> c"
    using assms(1,3,5) by (auto simp: valid_ranges_def in_range_def)
  moreover have "is_anchor L ws (r, c)"
    using top_left_of_covered [OF assms(2,3,5)] assms(4) by (simp add: is_anchor_def resolved_value_def)
  ultimately have m: "(r, c) \<in> set ?as" using assms(6,7) by simp
  have d: "distinct ?as" by (simp add: distinct_product)
  from m obtain pre post where sp: "?as = pre @ (r, c) # post"
    by (meson split_list)
  have "\<exists>a b.
         foldE (process_anchor L ws last_row last_col) pre
           (stores_totals st, drivers_totals st) = Inr a \<and>
         process_anchor L ws last_row last_col (r, c) a = Inr b \<and>
         foldE (process_anchor L ws last_row last_col) post b
           = Inr (stores_totals st', drivers_totals st')"
    if g: "get_sheet wb nm = Inr ws"
      and w: "last_row = window_rows ws max_rows" "last_col = window_cols ws max_cols"
      and s: "scan_sheet L wb max_rows max_cols n nm st = Inr st'"
    for wb max_rows max_cols n nm st st'
    using s
  proof (cases rule: scan_sheet_Inr)
    case (1 ws' anchors)
    have ws': "ws' = ws" using 1(1) g by simp
    have "anchors = ?as" using 1(2) eq unfolding ws' w [symmetric] by simp
    then have "foldE (process_anchor L ws last_row last_col) (pre @ (r, c) # post)
        (stores_totals st, drivers_totals st) = Inr (stores_totals st', drivers_totals st')"
      using 1(3) sp unfolding ws' w [symmetric] by simp
    then show ?thesis by (rule foldE_split) blast
  qed
  then show ?thesis using eq m d sp by blast
qed

theorem merged_anchor_every_cell_witness:
  "\<exists>anchors pre post.
     valid_ranges merged_table_sheet \<and> no_overlap merged_table_sheet \<and>
     find_table_anchors basic_lib merged_table_sheet 3 8 = Inr anchors \<and>
     anchors = [(2, 1), (2, 2)] \<and> anchors = pre @ (2, 2) # post \<and>
     (\<exists>st a b.
        scan_sheet basic_lib merged_table_book 320 25 1 (of_ascii ''05.01.2024'')
          \<lparr>stores_totals = Map.empty, drivers_totals = Map.empty, sheets_done = 0,
           log_lines = [], progress_calls = []\<rparr> = Inr st \<and>
        foldE (process_anchor basic_lib merged_table_sheet 3 8) pre (Map.empty, Map.empty)
          = Inr a \<and>
        process_anchor basic_lib merged_table_sheet 3 8 (2, 2) a = Inr b \<and>
        foldE (process_anchor basic_lib merged_table_sheet 3 8) post b
          = Inr (stores_totals st, drivers_totals st) \<and>
        stores_totals st store_a = Some \<lparr>brought = 5, returned = 2\<rparr> \<and>
        stores_totals st store_b = Some \<lparr>brought = 8, returned = 2\<rparr>)"
proof -
  let ?S = merged_table_sheet
  let ?init = "\<lparr>stores_totals = Map.empty, drivers_totals = Map.empty, sheets_done = 0,
           log_lines = [], progress_calls = []\<rparr> :: real scan_state"
  let ?tot = "add_totals basic_lib
      (add_totals basic_lib (add_totals basic_lib Map.empty store_a 5 2) store_b 4 1) store_b 4 1"
  let ?st = "\<lparr>stores_totals = ?tot, drivers_totals = Map.empty, sheets_done = 1,
           log_lines = [(of_ascii ''05.01.2024'', 2, 8, 3)], progress_calls = [(1, 1)]\<rparr>
           :: real scan_state"
  have m: "\<lparr>min_row = 2, min_col = 1, max_row = 2, max_col = 2\<rparr> \<in> set (merged_ranges ?S)"
    by (simp add: merged_table_sheet_def)
  have t: "norm_text basic_lib (cell_values ?S
             (min_row \<lparr>min_row = 2, min_col = 1, max_row = 2, max_col = 2\<rparr>,
              min_col \<lparr>min_row = 2, min_col = 1, max_row = 2, max_col = 2\<rparr>)) = ANCHOR_TEXT"
    by (simp add: merged_table_sheet_def norm_anchor)
  have i: "in_range \<lparr>min_row = 2, min_col = 1, max_row = 2, max_col = 2\<rparr> 2 2"
    by (simp add: in_range_def)
  have g: "get_sheet merged_table_book (of_ascii ''05.01.2024'') = Inr ?S"
    by (simp add: get_sheet_def merged_table_book_def)
  have e: "ws_max_row ?S = 3" "ws_max_column ?S = 8"
    by (simp_all add: merged_table_sheet_def)
  have sc: "scan_sheet basic_lib merged_table_book 320 25 1 (of_ascii ''05.01.2024'') ?init = Inr ?st"
    by (simp add: scan_sheet_def g int_or_def e merged_table_anchors merged_table_process)
  have tot: "?tot store_a = Some \<lparr>brought = 5, returned = 2\<rparr>"
    "?tot store_b = Some \<lparr>brought = 8, returned = 2\<rparr>"
    using store_a_b by (simp_all add: add_totals_def basic_float_ops)
  from merged_anchor_every_cell [OF merged_table_valid merged_table_no_overlap m t i, of 3 8]
  obtain anchors pre post where
    a: "find_table_anchors basic_lib ?S 3 8 = Inr anchors" "anchors = pre @ (2, 2) # post"
    and s: "\<forall>wb max_rows max_cols n nm st st'.
              get_sheet wb nm = Inr ?S \<and>
              3 = window_rows ?S max_rows \<and> 8 = window_cols ?S max_cols \<and>
              scan_sheet basic_lib wb max_rows max_cols n nm st = Inr st' \<longrightarrow>
              (\<exists>a b.
                 foldE (process_anchor basic_lib ?S 3 8) pre
                   (stores_totals st, drivers_totals st) = Inr a \<and>
                 process_anchor basic_lib ?S 3 8 (2, 2) a = Inr b \<and>
                 foldE (process_anchor basic_lib ?S 3 8) post b
                   = Inr (stores_totals st', drivers_totals st'))"
    by auto
  have an: "anchors = [(2, 1), (2, 2)]" using a(1) merged_table_anchors by simp
  from s g sc merged_table_window obtain x y where
    "foldE (process_anchor basic_lib ?S 3 8) pre (stores_totals ?init, drivers_totals ?init) = Inr x"
    "process_anchor basic_lib ?S 3 8 (2, 2) x = Inr y"
    "foldE (process_anchor basic_lib ?S 3 8) post y = Inr (stores_totals ?st, drivers_totals ?st)"
    by (metis (no_types, lifting))
  then have "\<exists>st a b.
        scan_sheet basic_lib merged_table_book 320 25 1 (of_ascii ''05.01.2024'') ?init = Inr st \<and>
        foldE (process_anchor basic_lib ?S 3 8) pre (Map.empty, Map.empty) = Inr a \<and>
        process_anchor basic_lib ?S 3 8 (2, 2) a = Inr b \<and>
        foldE (process_anchor basic_lib ?S 3 8) post b = Inr (stores_totals st, drivers_totals st) \<and>
        stores_totals st store_a = Some \<lparr>brought = 5, returned = 2\<rparr> \<and>
        stores_totals st store_b = Some \<lparr>brought = 8, returned = 2\<rparr>"
    using sc tot by (intro exI [of _ ?st] exI [of _ x] exI [of _ y]) simp
  then show ?thesis
    using merged_table_valid merged_table_no_overlap a an by blast
qed

subsection \<open>The sheets a scan visits\<close>

lemma scan_sheet_visit:
  assumes "scan_sheet L wb max_rows max_cols n nm st = Inr st'"
  shows "visit L wb max_rows max_cols nm (stores_totals st, drivers_totals st)
           = Inr (stores_totals st', drivers_totals st') \<and>
         (\<exists>line. log_lines st' = log_lines st @ [line] \<and> fst line = nm \<and>
                  log_line_ok L wb max_rows max_cols line)"
  using assms
proof (cases rule: scan_sheet_Inr)
  case (1 ws anchors)
  have v: "visit L wb max_rows max_cols nm (stores_totals st, drivers_totals st)
           = Inr (stores_totals st', drivers_totals st')"
    using 1(1,2,3) by (simp add: visit_def)
  have "log_line_ok L wb max_rows max_cols
          (nm, length anchors, window_cols ws max_cols, window_rows ws max_rows)"
    using 1(1,2) by (simp add: log_line_ok_def)
  then show ?thesis using v 1(4) by simp
qed

lemma scan_sheets_visit:
  "foldE (scan_sheet L wb max_rows max_cols n) nms st = Inr st' \<Longrightarrow>
   foldE (visit L wb max_rows max_cols) nms (stores_totals st, drivers_totals st)
     = Inr (stores_totals st', drivers_totals st') \<and>
   (\<exists>new. log_lines st' = log_lines st @ new \<and> map fst new = nms \<and>
           list_all (log_line_ok L wb max_rows max_cols) new)"
proof (induction nms arbitrary: st)
  case Nil
  then show ?case by simp
next
  case (Cons nm nms)
  then obtain t where t: "scan_sheet L wb max_rows max_cols n nm st = Inr t"
      "foldE (scan_sheet L wb max_rows max_cols n) nms t = Inr st'"
    by (auto split: sum.splits)
  from scan_sheet_visit [OF t(1)] obtain line where
    v: "visit L wb max_rows max_cols nm (stores_totals st, drivers_totals st)
           = Inr (stores_totals t, drivers_totals t)"
    and l: "log_lines t = log_lines st @ [line]" "fst line = nm"
           "log_line_ok L wb max_rows max_cols line"
    by blast
  from Cons.IH [OF t(2)] obtain new where
    f: "foldE (visit L wb max_rows max_cols) nms (stores_totals t, drivers_totals t)
          = Inr (stores_totals st', drivers_totals st')"
    and n: "log_lines st' = log_lines t @ new" "map fst new = nms"
           "list_all (log_line_ok L wb max_rows max_cols) new"
    by blast
  have fe: "foldE (visit L wb max_rows max_cols) (nm # nms) (stores_totals st, drivers_totals st)
          = Inr (stores_totals st', drivers_totals st')"
    using v f by simp
  have lg: "log_lines st' = log_lines st @ (line # new)" using l(1) n(1) by simp
  have mp: "map fst (line # new) = nm # nms" using l(2) n(2) by simp
  have ok: "list_all (log_line_ok L wb max_rows max_cols) (line # new)" using l(3) n(3) by simp
  show ?case
  proof (intro conjI exI [of _ "line # new"])
    show "foldE (visit L wb max_rows max_cols) (nm # nms) (stores_totals st, drivers_totals st)
          = Inr (stores_totals st', drivers_totals st')" by (rule fe)
    show "log_lines st' = log_lines st @ line # new" by (rule lg)
    show "map fst (line # new) = nm # nms" by (rule mp)
    show "list_all (log_line_ok L wb max_rows max_cols) (line # new)" by (rule ok)
  qed
qed

lemma select_sheets_filter:
  "select_sheets L wb date_from date_to
     = filter (in_date_range L date_from date_to) (sheetnames wb)"
  unfolding select_sheets_def in_date_range_def by simp

lemma three_book_range:
  "filter (in_date_range basic_lib jan_1 jan_31) (sheetnames three_book) = [of_ascii ''01.01.2024'']"
  by (simp add: in_date_range_def sheetnames_def three_book_def is_date_sheet_jan1
      is_date_sheet_feb1 is_date_sheet_summary date_le_def jan_1_def jan_31_def)

lemma three_book_scan:
  "scan_workbook basic_lib three_book jan_1 jan_31 320 25 =
     Inr (\<lparr>stores_totals = sample_totals store_a 5,
           drivers_totals = sample_totals (of_ascii ''Ivanov'') 5, sheets_done = 1,
           log_lines = [(of_ascii ''01.01.2024'', 1, 4, 4)], progress_calls = [(1, 1)]\<rparr>,
          \<lparr>sheets_scanned = 1, meta_from = jan_1, meta_to = jan_31,
           meta_max_rows = 320, meta_max_cols = 25\<rparr>)"
proof -
  have g: "get_sheet three_book (of_ascii ''01.01.2024'') = Inr (sample_sheet ivanov (VInt 5))"
    by (simp add: get_sheet_def three_book_def)
  show ?thesis
    using three_book_range
    by (simp add: scan_workbook_def select_sheets_filter scan_sheet_def g int_or_def
        sample_extent sample_anchors [OF ivanov_text(1) norm_int_not_anchor(1)]
        sample_process [OF to_number_small(1)] ivanov_text sample_totals_def store_a_def)
qed

text \<open>
  C8: when a scan returns, the sheets it has visited are the sheet names of the
  workbook, in workbook order, that parse as a date within the range (both ends
  included), and no others. The log holds one line for each of them, in this order, and
  the line of a sheet holds the number of anchors the anchor finder returns on the
  window of that sheet; the metadata counts the lines; and the totals are those that
  visiting these sheets, one after the other from empty maps, gives: no other sheet has
  gone through the anchor finder or added to the totals.
\<close>

theorem scan_visits_selected_sheets:
  assumes "scan_workbook L wb date_from date_to max_rows max_cols = Inr (st, meta)"
  shows "map fst (log_lines st) = filter (in_date_range L date_from date_to) (sheetnames wb) \<and>
         list_all (log_line_ok L wb max_rows max_cols) (log_lines st) \<and>
         sheets_scanned meta = length (log_lines st) \<and>
         foldE (visit L wb max_rows max_cols)
           (filter (in_date_range L date_from date_to) (sheetnames wb)) (Map.empty, Map.empty)
           = Inr (stores_totals st, drivers_totals st)"
proof -
  let ?sel = "select_sheets L wb date_from date_to"
  let ?init = "\<lparr>stores_totals = Map.empty, drivers_totals = Map.empty, sheets_done = 0,
        log_lines = [], progress_calls = []\<rparr> :: 'a scan_state"
  from assms have f: "foldE (scan_sheet L wb max_rows max_cols (length ?sel)) ?sel ?init = Inr st"
    and m: "sheets_scanned meta = length ?sel"
    by (auto simp: scan_workbook_def Let_def split: sum.splits)
  from scan_sheets_visit [OF f] obtain new where
    v: "foldE (visit L wb max_rows max_cols) ?sel (Map.empty, Map.empty)
          = Inr (stores_totals st, drivers_totals st)"
    and n: "log_lines st = new" "map fst new = ?sel"
           "list_all (log_line_ok L wb max_rows max_cols) new"
    by auto
  have "length (log_lines st) = length ?sel" using n(1,2) by (metis length_map)
  with v n m show ?thesis by (simp add: select_sheets_filter)
qed

theorem scan_visits_selected_sheets_witness:
  "\<exists>st meta. scan_workbook basic_lib three_book jan_1 jan_31 320 25 = Inr (st, meta) \<and>
     sheetnames three_book = [of_ascii ''01.01.2024'', of_ascii ''Summary'', of_ascii ''01.02.2024''] \<and>
     log_lines st = [(of_ascii ''01.01.2024'', 1, 4, 4)] \<and>
     list_all (log_line_ok basic_lib three_book 320 25) (log_lines st) \<and>
     sheets_scanned meta = 1 \<and>
     find_table_anchors basic_lib (sample_sheet ivanov (VInt 5)) 4 4 = Inr [(2, 1)] \<and>
     foldE (visit basic_lib three_book 320 25) [of_ascii ''01.01.2024''] (Map.empty, Map.empty)
       = Inr (stores_totals st, drivers_totals st) \<and>
     stores_totals st store_a = Some \<lparr>brought = 8, returned = 3\<rparr>"
  using scan_visits_selected_sheets [OF three_book_scan] three_book_scan three_book_range
    sample_anchors [OF ivanov_text(1) norm_int_not_anchor(1)]
  by (simp add: sample_totals_at sheetnames_def three_book_def)

subsection \<open>The sign of the sums\<close>

lemma add_totals_nonneg:
  assumes "float_order_laws L" "nonneg_totals L m" "float_nonneg L b" "float_nonneg L rv"
  shows "nonneg_totals L (add_totals L m k b rv)"
proof -
  have z: "float_nonneg L (float_of_int L 0)"
    and a: "\<And>x y. float_nonneg L x \<Longrightarrow> float_nonneg L y \<Longrightarrow> float_nonneg L (float_add L x y)"
    using assms(1) by (auto simp: float_order_laws_def)
  show ?thesis
  proof (cases "m k")
    case None
    then show ?thesis
      using assms(2,3,4) z a unfolding nonneg_totals_def add_totals_def by auto
  next
    case (Some t)
    then have "float_nonneg L (brought t)" "float_nonneg L (returned t)"
      using assms(2) unfolding nonneg_totals_def by auto
    then show ?thesis
      using Some assms(2,3,4) a unfolding nonneg_totals_def add_totals_def by auto
  qed
qed

lemma read_number_nonneg:
  assumes "cell_nonneg L ws (r, c)" "read_cell ws r c = Inr v" "to_number L v = Inr x"
  shows "float_nonneg L x"
  using assms read_cell_Inr [OF assms(2)] by (simp add: cell_nonneg_def)

lemma add_cell_nonneg:
  assumes "float_order_laws L"
    and "cell_nonneg L ws (r, pka_col st)" "cell_nonneg L ws (r, vat_col st)"
    and "nonneg_totals L (fst acc) \<and> nonneg_totals L (snd acc)"
    and "add_cell L ws has_d dd r st acc = Inr acc'"
  shows "nonneg_totals L (fst acc') \<and> nonneg_totals L (snd acc')"
proof -
  obtain S D where acc: "acc = (S, D)" by (cases acc)
  from assms(5) obtain bv b rvv rv where
    rd: "read_cell ws r (pka_col st) = Inr bv" "to_number L bv = Inr b"
        "read_cell ws r (vat_col st) = Inr rvv" "to_number L rvv = Inr rv"
    and res: "acc' = (add_totals L S (name st) b rv,
                if has_d then add_totals L D dd b rv else D)"
    unfolding add_cell_def acc by (auto split: sum.splits)
  have "float_nonneg L b" "float_nonneg L rv"
    using read_number_nonneg [OF assms(2) rd(1,2)] read_number_nonneg [OF assms(3) rd(3,4)]
    by auto
  then show ?thesis
    using assms(4) unfolding res acc by (simp add: add_totals_nonneg [OF assms(1)])
qed

lemma table_cells_member:
  assumes "detect_store_columns L ws (ar - 1) ar (ac + 2) last_col = Inr stores"
    and "data_row_end L ws ac (ar + 1) last_row = Inr data_end"
    and "st \<in> set stores" "r \<in> set [ar + 1..data_end]"
  shows "(r, pka_col st) \<in> set (table_cells L ws last_row last_col (ar, ac))"
    and "(r, vat_col st) \<in> set (table_cells L ws last_row last_col (ar, ac))"
  using assms by (auto simp: table_cells_def)

lemma process_anchor_nonneg:
  assumes "float_order_laws L"
    and "list_all (cell_nonneg L ws) (table_cells L ws last_row last_col anchor)"
    and "nonneg_totals L (fst acc) \<and> nonneg_totals L (snd acc)"
    and "process_anchor L ws last_row last_col anchor acc = Inr acc'"
  shows "nonneg_totals L (fst acc') \<and> nonneg_totals L (snd acc')"
proof -
  obtain ar ac where anchor: "anchor = (ar, ac)" by (cases anchor)
  let ?P = "\<lambda>a. nonneg_totals L (fst a) \<and> nonneg_totals L (snd a)"
  from assms(4) [unfolded anchor] show ?thesis
  proof (cases rule: process_anchor_Inr)
    case skip
    then show ?thesis using assms(3) by simp
  next
    case (sum driver_raw stores data_end)
    have cells: "cell_nonneg L ws (r, pka_col st) \<and> cell_nonneg L ws (r, vat_col st)"
      if "st \<in> set stores" "r \<in> set [ar + 1..data_end]" for st r
      using table_cells_member [OF sum(2,4) that] assms(2)
      unfolding anchor list_all_iff by blast
    have row: "?P a'"
      if "r \<in> set [ar + 1..data_end]" "?P a"
        "foldE (add_cell L ws (norm_text L driver_raw \<noteq> []) (pretty_text L driver_raw) r) stores a
           = Inr a'" for r a a'
      using that(3,2)
    proof (rule foldE_invariant [where P = ?P])
      fix st t t'
      assume "st \<in> set stores" "?P t"
        "add_cell L ws (norm_text L driver_raw \<noteq> []) (pretty_text L driver_raw) r st t = Inr t'"
      then show "?P t'"
        using add_cell_nonneg [OF assms(1)] cells [OF _ that(1)] by blast
    qed
    show ?thesis
      using sum(6) assms(3)
    proof (rule foldE_invariant [where P = ?P])
      fix r t t'
      assume "r \<in> set [ar + 1..data_end]" "?P t"
        "foldE (add_cell L ws (norm_text L driver_raw \<noteq> []) (pretty_text L driver_raw) r) stores t
           = Inr t'"
      then show "?P t'" by (rule row)
    qed
  qed
qed

lemma scan_sheet_nonneg:
  assumes "float_order_laws L"
    and "summed_cells_nonneg L wb max_rows max_cols nm"
    and "nonneg_totals L (stores_totals st) \<and> nonneg_totals L (drivers_totals st)"
    and "scan_sheet L wb max_rows max_cols n nm st = Inr st'"
  shows "nonneg_totals L (stores_totals st') \<and> nonneg_totals L (drivers_totals st')"
  using assms(4)
proof (cases rule: scan_sheet_Inr)
  case (1 ws anchors)
  let ?lr = "window_rows ws max_rows" and ?lc = "window_cols ws max_cols"
  let ?P = "\<lambda>a. nonneg_totals L (fst a) \<and> nonneg_totals L (snd a)"
  have all: "list_all (cell_nonneg L ws) (concat (map (table_cells L ws ?lr ?lc) anchors))"
    using assms(2) 1(1,2) by (simp add: summed_cells_nonneg_def summed_cells_def)
  have one: "list_all (cell_nonneg L ws) (table_cells L ws ?lr ?lc x)" if "x \<in> set anchors" for x
    using all that unfolding list_all_iff by auto
  have "?P (stores_totals st', drivers_totals st')"
    using 1(3)
  proof (rule foldE_invariant [where P = ?P])
    show "?P (stores_totals st, drivers_totals st)" using assms(3) by simp
  next
    fix x t t'
    assume "x \<in> set anchors" "?P t" "process_anchor L ws ?lr ?lc x t = Inr t'"
    then show "?P t'" using process_anchor_nonneg [OF assms(1) one] by blast
  qed
  then show ?thesis by simp
qed

lemma sample_summed:
  assumes "norm_text basic_lib d \<noteq> ANCHOR_TEXT" "norm_text basic_lib b \<noteq> ANCHOR_TEXT"
  shows "summed_cells basic_lib (sample_sheet d b) 4 4 = [(3, 3), (3, 4), (4, 3), (4, 4)]"
  using sample_detect [of d b] sample_data_end [of d b]
  by (simp add: summed_cells_def sample_anchors [OF assms] table_cells_def upto.simps)

lemma sample_cells_nonneg:
  "list_all (cell_nonneg basic_lib (sample_sheet d (VInt 5))) [(3, 3), (3, 4), (4, 3), (4, 4)]"
  by (simp add: cell_nonneg_def resolved_value_def cell_top_left_of_merge_def sample_sheet_def
      small_ints basic_float_ops)

lemma basic_order_laws: "float_order_laws basic_lib"
  by (simp add: float_order_laws_def basic_float_ops)

text \<open>
  C5, as stated: every sum in the totals maps is at least 0. A brought cell that holds
  -5 is added as it is: the store's brought sum over the rows -5 and 3 is -2.
\<close>

theorem totals_nonneg_counterexample:
  "(case scan_workbook basic_lib (sample_book ivanov (VInt (- 5))) jan_1 jan_31 320 25 of
      Inl e \<Rightarrow> None
    | Inr (st, meta) \<Rightarrow> stores_totals st store_a)
   = Some \<lparr>brought = - 2, returned = 3\<rparr> \<and>
   \<not> float_nonneg basic_lib (- 2)"
  by (simp add: sample_scan [OF to_number_small(2) ivanov_text(1) norm_int_not_anchor(2) ivanov_text(2)]
      sample_totals_at store_a_def basic_float_ops)

text \<open>
  C5, amended: when every cell from which the scan takes a number (the brought and the
  returned cell of every data row and store pair of every table, on every sheet whose
  name parses as a date within the range) converts to a number that is at least 0,
  every entry of the stores totals and of the drivers totals at the end of the scan has
  a brought sum and a returned sum of at least 0. The proof uses two facts of
  floating-point arithmetic: \<open>0.0\<close> is at least 0, and so is the sum of two floats that
  are.
\<close>

theorem totals_nonneg:
  assumes "scan_workbook L wb date_from date_to max_rows max_cols = Inr (st, meta)"
    and "float_order_laws L"
    and "\<forall>nm \<in> set (sheetnames wb).
           in_date_range L date_from date_to nm \<longrightarrow> summed_cells_nonneg L wb max_rows max_cols nm"
  shows "nonneg_totals L (stores_totals st) \<and> nonneg_totals L (drivers_totals st)"
proof -
  let ?sel = "select_sheets L wb date_from date_to"
  let ?init = "\<lparr>stores_totals = Map.empty, drivers_totals = Map.empty, sheets_done = 0,
        log_lines = [], progress_calls = []\<rparr> :: 'a scan_state"
  let ?P = "\<lambda>t. nonneg_totals L (stores_totals t) \<and> nonneg_totals L (drivers_totals t)"
  from assms(1) have f: "foldE (scan_sheet L wb max_rows max_cols (length ?sel)) ?sel ?init = Inr st"
    by (auto simp: scan_workbook_def Let_def split: sum.splits)
  have sel: "summed_cells_nonneg L wb max_rows max_cols nm" if "nm \<in> set ?sel" for nm
    using that assms(3) unfolding select_sheets_filter by simp
  show ?thesis using f
  proof (rule foldE_invariant [where P = ?P])
    show "?P ?init" by (simp add: nonneg_totals_def)
  next
    fix x t t'
    assume "x \<in> set ?sel" "?P t" "scan_sheet L wb max_rows max_cols (length ?sel) x t = Inr t'"
    then show "?P t'" using scan_sheet_nonneg [OF assms(2) sel] by blast
  qed
qed

theorem totals_nonneg_witness:
  "\<exists>st meta.
     scan_workbook basic_lib (sample_book ivanov (VInt 5)) jan_1 jan_31 320 25 = Inr (st, meta) \<and>
     float_order_laws basic_lib \<and>
     summed_cells basic_lib (sample_sheet ivanov (VInt 5)) 4 4 = [(3, 3), (3, 4), (4, 3), (4, 4)] \<and>
     summed_cells_nonneg basic_lib (sample_book ivanov (VInt 5)) 320 25 (of_ascii ''05.01.2024'') \<and>
     nonneg_totals basic_lib (stores_totals st) \<and> nonneg_totals basic_lib (drivers_totals st) \<and>
     stores_totals st store_a = Some \<lparr>brought = 8, returned = 3\<rparr>"
proof -
  let ?B = "sample_book ivanov (VInt 5)"
  note sm = sample_summed [OF ivanov_text(1) norm_int_not_anchor(1)]
  have g: "get_sheet ?B (of_ascii ''05.01.2024'') = Inr (sample_sheet ivanov (VInt 5))"
    by (simp add: get_sheet_def sample_book_def)
  have n: "summed_cells_nonneg basic_lib ?B 320 25 (of_ascii ''05.01.2024'')"
    unfolding summed_cells_nonneg_def g using sample_cells_nonneg
    by (simp add: sample_window sm)
  have c: "\<forall>nm \<in> set (sheetnames ?B).
           in_date_range basic_lib jan_1 jan_31 nm \<longrightarrow> summed_cells_nonneg basic_lib ?B 320 25 nm"
    using n by (simp add: sheetnames_def sample_book_def)
  note s = sample_scan [OF to_number_small(1) ivanov_text(1) norm_int_not_anchor(1) ivanov_text(2)]
  from totals_nonneg [OF s basic_order_laws c] s n sm basic_order_laws
  show ?thesis by (simp add: sample_totals_at store_a_def)
qed

subsection \<open>Driver attribution\<close>








lemma credit_driver_other: "k \<noteq> d \<Longrightarrow> credit_all L m (to_driver d cs) k = m k"
proof (induction cs arbitrary: m)
  case Nil
  then show ?case by (simp add: credit_all_def to_driver_def)
next
  case (Cons c cs)
  obtain k' b rv where c: "c = (k', b, rv)" by (cases c)
  have "credit_all L m (to_driver d (c # cs)) = credit_all L (add_totals L m d b rv) (to_driver d cs)"
    by (simp add: credit_all_def to_driver_def c)
  then show ?case using Cons by (simp add: add_totals_def split: option.splits)
qed

text \<open>The key under which the code credits a driver, in the words of the cell's value.\<close>

lemma pretty_text_display:
  "pretty_text L v =
     (if v = VNone \<or> holds_zero L v then [] else display_name L v)"
  by (cases v) (auto simp: pretty_text_def display_name_def strip_def)





subsection \<open>The column detector\<close>

lemma store_name_code:
  "(if pretty_text L v \<noteq> [] then pretty_text L v else UNNAMED) = store_name L v"
  by (simp add: pretty_text_display store_name_def claimed_store_name_def)

lemma labels_differ: "SUB_PKA \<noteq> SUB_VAT"
  by (simp add: SUB_PKA_def SUB_VAT_def)

lemma pairs_from_Nil: "last_col - 1 < c \<Longrightarrow> pairs_from L ws hdr_row sub_row last_col c []"
  by (simp add: pairs_from_def)

lemma pairs_from_skip:
  assumes "pairs_from L ws hdr_row sub_row last_col (c + 1) stores" "\<not> is_pair L ws sub_row c"
  shows "pairs_from L ws hdr_row sub_row last_col c stores"
proof -
  have 1: "\<forall>st \<in> set stores. c \<le> pka_col st \<and> pka_col st \<le> last_col - 1 \<and>
        is_pair L ws sub_row (pka_col st) \<and> st = store_at L ws hdr_row (pka_col st)"
    using assms(1) unfolding pairs_from_def by fastforce
  have 2: "sorted_wrt (\<lambda>a b. pka_col a + 3 \<le> pka_col b) stores"
    using assms(1) unfolding pairs_from_def by blast
  have 3: "c' \<in> pka_col ` set stores \<or> c' - 2 \<in> pka_col ` set stores"
    if a: "c \<le> c' \<and> c' \<le> last_col - 1 \<and> is_pair L ws sub_row c'" for c'
  proof -
    have "c' \<noteq> c" using assms(2) a by auto
    then have "c + 1 \<le> c'" using a by simp
    then show ?thesis using assms(1) a unfolding pairs_from_def by blast
  qed
  show ?thesis unfolding pairs_from_def using 1 2 3 by blast
qed

lemma pairs_from_match:
  assumes "pairs_from L ws hdr_row sub_row last_col (c + 3) stores" "is_pair L ws sub_row c"
    "c \<le> last_col - 1"
  shows "pairs_from L ws hdr_row sub_row last_col c (store_at L ws hdr_row c # stores)"
proof -
  let ?s = "store_at L ws hdr_row c"
  have p: "pka_col ?s = c" by (simp add: store_at_def)
  have 1: "c \<le> pka_col st \<and> pka_col st \<le> last_col - 1 \<and>
        is_pair L ws sub_row (pka_col st) \<and> st = store_at L ws hdr_row (pka_col st)"
    if "st \<in> set (?s # stores)" for st
  proof -
    from that consider "st = ?s" | "st \<in> set stores" by auto
    then show ?thesis
    proof cases
      case 1
      then show ?thesis using assms(2,3) p by simp
    next
      case 2
      then show ?thesis using assms(1) unfolding pairs_from_def by fastforce
    qed
  qed
  have "\<forall>b \<in> set stores. pka_col ?s + 3 \<le> pka_col b"
    using assms(1) p unfolding pairs_from_def by simp
  then have 2: "sorted_wrt (\<lambda>a b. pka_col a + 3 \<le> pka_col b) (?s # stores)"
    using assms(1) unfolding pairs_from_def by simp
  have 3: "c' \<in> pka_col ` set (?s # stores) \<or> c' - 2 \<in> pka_col ` set (?s # stores)"
    if a: "c \<le> c' \<and> c' \<le> last_col - 1 \<and> is_pair L ws sub_row c'" for c'
  proof -
    have n1: "c' \<noteq> c + 1"
    proof
      assume "c' = c + 1"
      then have "norm_text L (resolved_value ws sub_row (c + 1)) = SUB_PKA"
        using a by (simp add: is_pair_def)
      then show False using assms(2) labels_differ by (simp add: is_pair_def)
    qed
    consider "c' = c" | "c' = c + 2" | "c + 3 \<le> c'" using a n1 by linarith
    then show ?thesis
    proof cases
      case 1
      then show ?thesis using p by simp
    next
      case 2
      then show ?thesis using p by simp
    next
      case 3
      then have "c' \<in> pka_col ` set stores \<or> c' - 2 \<in> pka_col ` set stores"
        using assms(1) a unfolding pairs_from_def by blast
      then show ?thesis by auto
    qed
  qed
  show ?thesis unfolding pairs_from_def using 1 2 3 by blast
qed

lemma detect_loop_spec:
  assumes v: "valid_ranges ws" and h: "1 \<le> hdr_row" and s: "1 \<le> sub_row"
  shows "1 \<le> c \<Longrightarrow>
         \<exists>new. detect_loop L ws hdr_row sub_row last_col c acc = Inr (acc @ new) \<and>
               pairs_from L ws hdr_row sub_row last_col c new"
proof (induction "nat (last_col - c)" arbitrary: c acc rule: less_induct)
  case less
  show ?case
  proof (cases "c \<le> last_col - 1")
    case False
    then have "detect_loop L ws hdr_row sub_row last_col c acc = Inr (acc @ [])"
      by (simp add: detect_loop.simps [of L ws hdr_row sub_row last_col c])
    moreover have "pairs_from L ws hdr_row sub_row last_col c []"
      using False by (simp add: pairs_from_Nil)
    ultimately show ?thesis by blast
  next
    case True
    have r1: "read_cell ws sub_row c = Inr (resolved_value ws sub_row c)"
      using read_cell_ok [OF v s] less.prems by simp
    have r2: "read_cell ws sub_row (c + 1) = Inr (resolved_value ws sub_row (c + 1))"
      using read_cell_ok [OF v s] less.prems by simp
    have r3: "read_cell ws hdr_row c = Inr (resolved_value ws hdr_row c)"
      using read_cell_ok [OF v h] less.prems by simp
    show ?thesis
    proof (cases "is_pair L ws sub_row c")
      case p: True
      have "nat (last_col - (c + 3)) < nat (last_col - c)" using True by simp
      from less.hyps [OF this, of "acc @ [store_at L ws hdr_row c]"] less.prems
      obtain new where
        d: "detect_loop L ws hdr_row sub_row last_col (c + 3) (acc @ [store_at L ws hdr_row c])
              = Inr ((acc @ [store_at L ws hdr_row c]) @ new)"
        and pf: "pairs_from L ws hdr_row sub_row last_col (c + 3) new"
        by auto
      have "detect_loop L ws hdr_row sub_row last_col c acc
              = Inr (acc @ store_at L ws hdr_row c # new)"
        using True p d r1 r2 r3
        by (auto simp: detect_loop.simps [of L ws hdr_row sub_row last_col c] is_pair_def store_at_def
            store_name_code)
      then show ?thesis using pairs_from_match [OF pf p True] by blast
    next
      case np: False
      have "nat (last_col - (c + 1)) < nat (last_col - c)" using True by simp
      from less.hyps [OF this, of acc] less.prems
      obtain new where
        d: "detect_loop L ws hdr_row sub_row last_col (c + 1) acc = Inr (acc @ new)"
        and pf: "pairs_from L ws hdr_row sub_row last_col (c + 1) new"
        by auto
      have "detect_loop L ws hdr_row sub_row last_col c acc = Inr (acc @ new)"
        using True np d r1 r2
        by (auto simp: detect_loop.simps [of L ws hdr_row sub_row last_col c] is_pair_def)
      then show ?thesis using pairs_from_skip [OF pf np] by blast
    qed
  qed
qed

lemma stride_valid: "valid_ranges (stride_sheet h)"
  by (simp add: valid_ranges_def stride_sheet_def)

lemma stride_detect:
  "detect_store_columns basic_lib (stride_sheet h) 1 2 3 7
     = Inr [\<lparr>name = of_ascii ''Store A'', pka_col = 3, vat_col = 4\<rparr>,
            \<lparr>name = store_name basic_lib h, pka_col = 6, vat_col = 7\<rparr>]"
  by (simp add: detect_store_columns_def detect_loop.simps eval_read stride_sheet_def
      store_name_code)
    (simp add: eval_text store_name_def claimed_store_name_def display_name_def)

lemma stride_cells:
  "resolved_value (stride_sheet h) 1 6 = h"
  "resolved_value (stride_sheet h) 1 3 = VStr (of_ascii ''Store A'')"
  by (simp_all add: resolved_value_def cell_top_left_of_merge_def stride_sheet_def)

lemma stride_pairs: "is_pair basic_lib (stride_sheet h) 2 3" "is_pair basic_lib (stride_sheet h) 2 6"
  by (simp_all add: is_pair_def resolved_value_def cell_top_left_of_merge_def stride_sheet_def
      eval_text)

text \<open>
  C3, as stated: a recorded pair carries the name its header cell shows, and the
  placeholder when the header cell is empty or absent. A header cell that holds the
  number 0 is neither: it shows the name \<open>0\<close>. The code records the placeholder for
  it.
\<close>

theorem detect_store_columns_spec_counterexample:
  "detect_store_columns basic_lib (stride_sheet (VInt 0)) 1 2 3 7
     = Inr [\<lparr>name = of_ascii ''Store A'', pka_col = 3, vat_col = 4\<rparr>,
            \<lparr>name = UNNAMED, pka_col = 6, vat_col = 7\<rparr>] \<and>
   resolved_value (stride_sheet (VInt 0)) 1 6 = VInt 0 \<and>
   display_name basic_lib (VInt 0) = of_ascii ''0'' \<and>
   claimed_store_name basic_lib (VInt 0) = of_ascii ''0'' \<and>
   of_ascii ''0'' \<noteq> UNNAMED"
proof -
  have d: "display_name basic_lib (VInt 0) = of_ascii ''0''"
    by (simp add: display_name_def eval_text)
  then have c: "claimed_store_name basic_lib (VInt 0) = of_ascii ''0''"
    by (simp add: claimed_store_name_def of_ascii_def)
  have s: "store_name basic_lib (VInt 0) = UNNAMED"
    by (simp add: store_name_def)
  show ?thesis
    using stride_detect [of "VInt 0"] stride_cells(1) [of "VInt 0"] d c s
    by (simp add: of_ascii_def UNNAMED_def)
qed

text \<open>
  C3, amended: on a sheet whose header row, subheader row and start column are 1 or
  more, \<open>detect_store_columns\<close> returns, and the list it returns holds, from left to
  right, pairs that each start inside the window (at most at \<open>last_col - 1\<close>, so two
  columns remain), sit on a column where the subheader row holds the brought label
  followed by the returned label, and carry the name of the header cell of that
  column: the name the cell shows, and the placeholder when the cell is absent, shows
  the empty name, or holds a zero (the integer 0, a float equal to 0, or False). Two
  recorded pairs are at least 3 columns apart; and every matching column from
  \<open>start_col\<close> on is recorded unless it is the third column of a recorded pair, which
  the advance by 3 skips.
\<close>

theorem detect_store_columns_spec:
  assumes "valid_ranges ws" "1 \<le> hdr_row" "1 \<le> sub_row" "1 \<le> start_col"
  shows "\<exists>stores. detect_store_columns L ws hdr_row sub_row start_col last_col = Inr stores \<and>
           (\<forall>st \<in> set stores. start_col \<le> pka_col st \<and> pka_col st \<le> last_col - 1 \<and>
              is_pair L ws sub_row (pka_col st) \<and> vat_col st = pka_col st + 1 \<and>
              name st = store_name L (resolved_value ws hdr_row (pka_col st))) \<and>
           sorted_wrt (\<lambda>a b. pka_col a + 3 \<le> pka_col b) stores \<and>
           (\<forall>c. start_col \<le> c \<and> c \<le> last_col - 1 \<and> is_pair L ws sub_row c \<longrightarrow>
              c \<in> pka_col ` set stores \<or> c - 2 \<in> pka_col ` set stores)"
proof -
  from detect_loop_spec [OF assms, of L last_col "[]"] obtain stores where
    d: "detect_store_columns L ws hdr_row sub_row start_col last_col = Inr stores"
    and p: "pairs_from L ws hdr_row sub_row last_col start_col stores"
    unfolding detect_store_columns_def by auto
  have 1: "\<forall>st \<in> set stores. start_col \<le> pka_col st \<and> pka_col st \<le> last_col - 1 \<and>
              is_pair L ws sub_row (pka_col st) \<and> vat_col st = pka_col st + 1 \<and>
              name st = store_name L (resolved_value ws hdr_row (pka_col st))"
  proof
    fix st assume "st \<in> set stores"
    then have a: "start_col \<le> pka_col st \<and> pka_col st \<le> last_col - 1 \<and>
        is_pair L ws sub_row (pka_col st)" and e: "st = store_at L ws hdr_row (pka_col st)"
      using p unfolding pairs_from_def by auto
    have "vat_col st = pka_col st + 1 \<and>
          name st = store_name L (resolved_value ws hdr_row (pka_col st))"
      by (subst (1 3) e) (simp add: store_at_def)
    with a show "start_col \<le> pka_col st \<and> pka_col st \<le> last_col - 1 \<and>
              is_pair L ws sub_row (pka_col st) \<and> vat_col st = pka_col st + 1 \<and>
              name st = store_name L (resolved_value ws hdr_row (pka_col st))" by simp
  qed
  have 2: "sorted_wrt (\<lambda>a b. pka_col a + 3 \<le> pka_col b) stores"
    using p unfolding pairs_from_def by blast
  have 3: "\<forall>c. start_col \<le> c \<and> c \<le> last_col - 1 \<and> is_pair L ws sub_row c \<longrightarrow>
              c \<in> pka_col ` set stores \<or> c - 2 \<in> pka_col ` set stores"
    using p unfolding pairs_from_def by blast
  show ?thesis using d 1 2 3 by blast
qed

theorem detect_store_columns_spec_witness:
  "valid_ranges (stride_sheet VNone) \<and>
   detect_store_columns basic_lib (stride_sheet VNone) 1 2 3 7
     = Inr [\<lparr>name = of_ascii ''Store A'', pka_col = 3, vat_col = 4\<rparr>,
            \<lparr>name = UNNAMED, pka_col = 6, vat_col = 7\<rparr>] \<and>
   is_pair basic_lib (stride_sheet VNone) 2 3 \<and> is_pair basic_lib (stride_sheet VNone) 2 6 \<and>
   store_name basic_lib (resolved_value (stride_sheet VNone) 1 3) = of_ascii ''Store A'' \<and>
   store_name basic_lib (resolved_value (stride_sheet VNone) 1 6) = UNNAMED"
proof -
  let ?S = "stride_sheet VNone :: real worksheet"
  have one: "(1::int) \<le> 1" "(1::int) \<le> 2" "(1::int) \<le> 3" by simp_all
  have u: "store_name basic_lib VNone = UNNAMED"
    by (simp add: store_name_def claimed_store_name_def)
  from detect_store_columns_spec [OF stride_valid [of VNone] one, of basic_lib 7]
  obtain stores where
    d: "detect_store_columns basic_lib ?S 1 2 3 7 = Inr stores"
    and p: "\<forall>st \<in> set stores. 3 \<le> pka_col st \<and> pka_col st \<le> 7 - 1 \<and>
              is_pair basic_lib ?S 2 (pka_col st) \<and> vat_col st = pka_col st + 1 \<and>
              name st = store_name basic_lib (resolved_value ?S 1 (pka_col st))"
    by blast
  have s: "stores = [\<lparr>name = of_ascii ''Store A'', pka_col = 3, vat_col = 4\<rparr>,
            \<lparr>name = UNNAMED, pka_col = 6, vat_col = 7\<rparr>]"
    using d stride_detect [of VNone] u by simp
  show ?thesis using p stride_valid d unfolding s by simp
qed

subsection \<open>Further properties of the code\<close>

lemma data_row_loop_window:
  assumes v: "valid_ranges ws" and col: "1 \<le> col"
  shows "1 \<le> r \<Longrightarrow> r \<le> last_row \<Longrightarrow> b = 0 \<or> (b = 1 \<and> \<not> is_blank L ws col r) \<Longrightarrow>
         \<forall>j. r \<le> j \<and> j < last_row \<longrightarrow> \<not> (is_blank L ws col j \<and> is_blank L ws col (j + 1)) \<Longrightarrow>
         data_row_loop L ws col last_row r b
           = Inr (last_row + 1, if is_blank L ws col last_row then 1 else 0)"
proof (induction "nat (last_row - r)" arbitrary: r b)
  case 0
  then have rl: "r = last_row" by simp
  have rd: "read_cell ws last_row col = Inr (resolved_value ws last_row col)"
    using read_cell_ok [OF v _ col] 0 rl by simp
  have b0: "is_blank L ws col last_row \<Longrightarrow> b = 0" using 0 rl by auto
  show ?case
    using rd b0 unfolding rl
    by (auto simp: data_row_loop.simps [of L ws col last_row last_row]
        data_row_loop.simps [of L ws col last_row "last_row + 1"] is_blank_def)
next
  case (Suc n)
  then have lt: "r < last_row" by simp
  have rd: "read_cell ws r col = Inr (resolved_value ws r col)"
    using read_cell_ok [OF v _ col] Suc by simp
  have n: "n = nat (last_row - (r + 1))" using Suc by simp
  have nopair: "\<forall>j. r + 1 \<le> j \<and> j < last_row \<longrightarrow>
      \<not> (is_blank L ws col j \<and> is_blank L ws col (j + 1))"
    using Suc.prems(4) by auto
  show ?case
  proof (cases "is_blank L ws col r")
    case True
    then have b0: "b = 0" using Suc.prems(3) by auto
    have nb: "\<not> is_blank L ws col (r + 1)" using Suc.prems(4) lt True by auto
    have "data_row_loop L ws col last_row (r + 1) 1
            = Inr (last_row + 1, if is_blank L ws col last_row then 1 else 0)"
      using Suc.hyps(1) [OF n, of 1] Suc.prems lt nb nopair by simp
    then show ?thesis
      using True rd lt unfolding b0
      by (simp add: data_row_loop.simps [of L ws col last_row r] is_blank_def)
  next
    case False
    have "data_row_loop L ws col last_row (r + 1) 0
            = Inr (last_row + 1, if is_blank L ws col last_row then 1 else 0)"
      using Suc.hyps(1) [OF n, of 0] Suc.prems lt nopair by simp
    then show ?thesis
      using False rd lt
      by (simp add: data_row_loop.simps [of L ws col last_row r] is_blank_def)
  qed
qed

text \<open>
  X1: when the rows from \<open>start_row\<close> to the window bound hold no two consecutive
  blank rows, \<open>data_row_end\<close> returns the last non-blank row of the window: the bound
  itself, or the row before it when the bound row is blank.
\<close>

theorem data_row_end_window_bound:
  assumes "valid_ranges ws" "1 \<le> col" "1 \<le> start_row" "start_row \<le> last_row"
    and "\<forall>j. start_row \<le> j \<and> j < last_row \<longrightarrow>
           \<not> (is_blank L ws col j \<and> is_blank L ws col (j + 1))"
  shows "data_row_end L ws col start_row last_row
           = Inr (if is_blank L ws col last_row then last_row - 1 else last_row)"
  using data_row_loop_window [OF assms(1,2,3,4) _ assms(5), of 0]
  by (simp add: data_row_end_def)

theorem data_row_end_window_bound_witness:
  "data_row_end basic_lib (sample_sheet ivanov (VInt 5)) 1 3 4 = Inr 4 \<and>
   \<not> is_blank basic_lib (sample_sheet ivanov (VInt 5)) 1 4"
proof -
  have b: "\<not> is_blank basic_lib (sample_sheet ivanov (VInt 5)) 1 3"
    "\<not> is_blank basic_lib (sample_sheet ivanov (VInt 5)) 1 4"
    by (simp_all add: is_blank_def resolved_value_def cell_top_left_of_merge_def
        sample_sheet_def eval_text)
  have n: "\<forall>j. 3 \<le> j \<and> j < 4 \<longrightarrow>
     \<not> (is_blank basic_lib (sample_sheet ivanov (VInt 5)) 1 j \<and>
        is_blank basic_lib (sample_sheet ivanov (VInt 5)) 1 (j + 1))"
  proof (intro allI impI)
    fix j :: int assume "3 \<le> j \<and> j < 4"
    then have "j = 3" by simp
    then show "\<not> (is_blank basic_lib (sample_sheet ivanov (VInt 5)) 1 j \<and>
        is_blank basic_lib (sample_sheet ivanov (VInt 5)) 1 (j + 1))" using b by simp
  qed
  have o: "(1::int) \<le> 1" "(1::int) \<le> 3" "(3::int) \<le> 4" by simp_all
  from data_row_end_window_bound [OF sample_valid o n] b show ?thesis by simp
qed

text \<open>
  X2: when rows \<open>k\<close> and \<open>k + 1\<close> are the first two consecutive blank rows from
  \<open>start_row\<close> on and lie in the window, \<open>data_row_end\<close> returns \<open>k - 2\<close>, the row
  before the last row that precedes the blank run.
\<close>

theorem data_row_end_blank_run:
  assumes "valid_ranges ws" "1 \<le> col" "1 \<le> start_row" "start_row \<le> k" "k + 1 \<le> last_row"
    and "is_blank L ws col k" "is_blank L ws col (k + 1)"
    and "\<forall>j. start_row \<le> j \<and> j < k \<longrightarrow> \<not> (is_blank L ws col j \<and> is_blank L ws col (j + 1))"
  shows "data_row_end L ws col start_row last_row = Inr (k - 2)"
  using assms by (rule data_row_end_at_blank_run)

lemma extent_valid: "valid_ranges extent_sheet"
  by (simp add: valid_ranges_def extent_sheet_def)

theorem data_row_end_blank_run_witness:
  "is_blank basic_lib extent_sheet 1 4 \<and> is_blank basic_lib extent_sheet 1 5 \<and>
   \<not> is_blank basic_lib extent_sheet 1 3 \<and>
   data_row_end basic_lib extent_sheet 1 1 10 = Inr (4 - 2)"
proof -
  have b: "\<not> is_blank basic_lib extent_sheet 1 1" "\<not> is_blank basic_lib extent_sheet 1 2"
    "\<not> is_blank basic_lib extent_sheet 1 3" "is_blank basic_lib extent_sheet 1 4"
    "is_blank basic_lib extent_sheet 1 5"
    by (simp_all add: is_blank_def resolved_value_def cell_top_left_of_merge_def
        extent_sheet_def eval_text)
  have n: "\<forall>j. 1 \<le> j \<and> j < 4 \<longrightarrow>
     \<not> (is_blank basic_lib extent_sheet 1 j \<and> is_blank basic_lib extent_sheet 1 (j + 1))"
  proof (intro allI impI)
    fix j :: int assume "1 \<le> j \<and> j < 4"
    then have "j = 1 \<or> j = 2 \<or> j = 3" by auto
    then show "\<not> (is_blank basic_lib extent_sheet 1 j \<and> is_blank basic_lib extent_sheet 1 (j + 1))"
      using b by auto
  qed
  have o: "(1::int) \<le> 1" "(1::int) \<le> 4" "(4::int) + 1 \<le> 10" by simp_all
  have b5: "is_blank basic_lib extent_sheet 1 (4 + 1)" using b(5) by simp
  from data_row_end_blank_run [OF extent_valid o(1) o(1) o(2) o(3) b(4) b5 n] b
  show ?thesis by simp
qed

text \<open>
  X3: \<open>find_table_anchors\<close> returns, in row-major order, the coordinates of the window
  whose cell reads through the resolver as the anchor phrase.
\<close>

theorem anchors_row_major:
  assumes "valid_ranges ws"
  shows "find_table_anchors L ws last_row last_col
           = Inr (filter (is_anchor L ws) (List.product [1..last_row] [1..last_col]))"
  using assms by (rule find_table_anchors_eq)

lemma merged_title_valid: "valid_ranges merged_title_sheet"
  by (simp add: valid_ranges_def merged_title_sheet_def)

theorem anchors_row_major_witness:
  "find_table_anchors basic_lib merged_title_sheet 3 3 = Inr [(2, 1), (2, 2), (3, 1), (3, 2)]"
  unfolding anchors_row_major [OF merged_title_valid]
  by (simp add: upto.simps is_anchor_def resolved_value_def cell_top_left_of_merge_def
      in_range_def merged_title_sheet_def norm_anchor norm_none anchor_nonempty [symmetric])

text \<open>
  X4: for an anchor in row 1, \<open>process_anchor\<close> raises the worksheet's ValueError for
  row 0 before it changes any total.
\<close>

theorem anchor_in_row_one_raises:
  assumes "valid_ranges ws"
  shows "process_anchor L ws last_row last_col (1, c) acc = Inl (ValueError 0 c)"
  using assms by (rule process_anchor_row1)

theorem anchor_in_row_one_raises_witness:
  "process_anchor basic_lib row1_sheet 1 1 (1, 1) (Map.empty, Map.empty) = Inl (ValueError 0 1)"
  by (rule anchor_in_row_one_raises [OF row1_valid])


end
